theory Spec2Isabelle
  imports Complex_Main
begin

section \<open>Stochastic gradient descent for matrix factorisation (sgdAlamere.cpp)\<close>

text \<open>
  The embedding follows \<^verbatim>\<open>src/exp/apps/sgd/sgdAlamere.cpp\<close>.

  \<^item> A C++ \<^verbatim>\<open>double\<close> is a \<^typ>\<open>real\<close>: arithmetic is exact, there is no rounding, no
    infinity and no NaN. Every statement below about a latent vector or a step size is a
    statement about this idealisation.
  \<^item> An \<^verbatim>\<open>unsigned int\<close> is a \<^typ>\<open>nat\<close>; where the source adds or multiplies, the
    wrap-around \<open>mod 2 ^ 32\<close> is written out.
  \<^item> \<^verbatim>\<open>assert\<close> is compiled out when the macro \<^verbatim>\<open>NDEBUG\<close> is defined. The build
    setting is not part of the source file, so it is a parameter \<open>NDEBUG\<close> of every
    function that reaches the assertion; a failed assertion is the error value.
\<close>

subsection \<open>Constants\<close>

definition LATENT_VECTOR_SIZE :: nat where
  "LATENT_VECTOR_SIZE = 20"

definition MAX_MOVIE_UPDATES :: nat where
  "MAX_MOVIE_UPDATES = 5"

definition LEARNING_RATE :: real where
  "LEARNING_RATE = 0.001"

definition DECAY_RATE :: real where
  "DECAY_RATE = 0.9"

definition LAMBDA :: real where
  "LAMBDA = 0.001"

definition BottouInit :: real where
  "BottouInit = 0.1"

definition UINT_MOD :: nat where
  "UINT_MOD = 2 ^ 32"

text \<open>The least and the greatest normal \<^verbatim>\<open>double\<close>, for \<^verbatim>\<open>std::isnormal\<close>.\<close>

definition DBL_MIN :: real where
  "DBL_MIN = 1 / 2 ^ 1022"

definition DBL_MAX :: real where
  "DBL_MAX = 2 ^ 1024 - 2 ^ 971"

definition isnormal :: "real \<Rightarrow> bool" where
  "isnormal x \<longleftrightarrow> DBL_MIN \<le> \<bar>x\<bar> \<and> \<bar>x\<bar> \<le> DBL_MAX"

subsection \<open>Nodes\<close>

text \<open>
  \<^verbatim>\<open>struct Node { double latent_vector[LATENT_VECTOR_SIZE]; unsigned int updates;
  unsigned int edge_offset; }\<close>. The array is a list; the source only ever reads and
  writes the indices below \<open>LATENT_VECTOR_SIZE\<close>.
\<close>

record Node =
  latent_vector :: "real list"
  updates :: nat
  edge_offset :: nat

text \<open>
  What stops a run: a failed \<^verbatim>\<open>assert\<close>, an index past the end of the lock array, an
  edge iterator read at the end of its list, a division by zero, and a loop that never
  leaves (see \<open>block_users_loop\<close>).
\<close>

datatype error =
  AssertionFailed | LockIndexOutOfRange | IteratorPastEnd | DivisionByZero | Diverges

subsection \<open>The dot product and the gradient kernel\<close>

text \<open>The loop of \<^verbatim>\<open>vector_dot\<close>: \<^verbatim>\<open>dp += user_latent[i] * movie_latent[i]\<close>.\<close>

definition dot_loop :: "real list \<Rightarrow> real list \<Rightarrow> real" where
  "dot_loop movie_latent user_latent =
     foldl (\<lambda>dp i. dp + user_latent ! i * movie_latent ! i) 0 [0..<LATENT_VECTOR_SIZE]"

definition vector_dot :: "bool \<Rightarrow> Node \<Rightarrow> Node \<Rightarrow> error + real" where
  "vector_dot NDEBUG movie_data user_data =
     (let dp = dot_loop (latent_vector movie_data) (latent_vector user_data)
      in if \<not> NDEBUG \<and> \<not> isnormal dp then Inl AssertionFailed else Inr dp)"

text \<open>One iteration of the gradient loop of \<^verbatim>\<open>doGradientUpdate\<close>, at index \<open>i\<close>.\<close>

definition gradient_step ::
  "real \<Rightarrow> real \<Rightarrow> nat \<Rightarrow> real list \<times> real list \<Rightarrow> real list \<times> real list" where
  "gradient_step cur_error step_size i = (\<lambda>(movie_latent, user_latent).
     let prev_movie_val = movie_latent ! i;
         prev_user_val = user_latent ! i
     in (movie_latent[i := movie_latent ! i
            + step_size * (cur_error * prev_user_val - LAMBDA * prev_movie_val)],
         user_latent[i := user_latent ! i
            + step_size * (cur_error * prev_movie_val - LAMBDA * prev_user_val)]))"

definition doGradientUpdate ::
  "bool \<Rightarrow> Node \<Rightarrow> Node \<Rightarrow> nat \<Rightarrow> real \<Rightarrow> error + Node \<times> Node" where
  "doGradientUpdate NDEBUG movie_data user_data edge_rating step_size =
     (case vector_dot NDEBUG movie_data user_data of
        Inl e \<Rightarrow> Inl e
      | Inr dp \<Rightarrow>
          let cur_error = real edge_rating - dp;
              (movie_latent, user_latent) =
                 foldl (\<lambda>s i. gradient_step cur_error step_size i s)
                   (latent_vector movie_data, latent_vector user_data)
                   [0..<LATENT_VECTOR_SIZE]
          in Inr (movie_data\<lparr>latent_vector := movie_latent\<rparr>,
                  user_data\<lparr>latent_vector := user_latent\<rparr>))"


subsection \<open>Step sizes\<close>

text \<open>
  The four \<^verbatim>\<open>LearnFN\<close> classes. \<^verbatim>\<open>round\<close> is an \<^verbatim>\<open>unsigned int\<close>, so
  \<^verbatim>\<open>round + 1\<close> wraps; \<^verbatim>\<open>pow\<close> with a non-negative base is \<open>powr\<close>, and with an
  integer exponent it is the power. Where the divisor of \<open>InvLearnFN\<close> wraps to 0 the
  C++ quotient is infinite, a value the reals do not have: no statement below is about
  that round.
\<close>

definition PurdueLearnFN :: "nat \<Rightarrow> real" where
  "PurdueLearnFN rnd =
     LEARNING_RATE * 1.5 / (1.0 + DECAY_RATE * real ((rnd + 1) mod UINT_MOD) powr 1.5)"

definition IntelLearnFN :: "nat \<Rightarrow> real" where
  "IntelLearnFN rnd = LEARNING_RATE * DECAY_RATE ^ rnd"

definition BottouLearnFN :: "nat \<Rightarrow> real" where
  "BottouLearnFN rnd = BottouInit / (1 + BottouInit * LAMBDA * real rnd)"

definition InvLearnFN :: "nat \<Rightarrow> real" where
  "InvLearnFN rnd = 1 / real ((rnd + 1) mod UINT_MOD)"

datatype Learn = Intel | Purdue | Bottou | Inv

fun step_size :: "Learn \<Rightarrow> nat \<Rightarrow> real" where
  "step_size Intel rnd = IntelLearnFN rnd"
| "step_size Purdue rnd = PurdueLearnFN rnd"
| "step_size Bottou rnd = BottouLearnFN rnd"
| "step_size Inv rnd = InvLearnFN rnd"

subsection \<open>The graph and the work items\<close>

text \<open>
  \<^verbatim>\<open>LC_CSR_Graph<Node, unsigned>\<close>: the nodes are \<open>0 ..< num_nodes\<close>, each with its
  data and its outgoing edges in storage order, an edge being the destination node and
  the rating. A reference to a node's data is the node's number. The two globals
  \<^verbatim>\<open>NUM_MOVIE_NODES\<close> and \<^verbatim>\<open>NUM_USER_NODES\<close> are parameters of the functions that
  read them.
\<close>

record Graph =
  num_nodes :: nat
  node_data :: "nat \<Rightarrow> Node"
  out_edges :: "nat \<Rightarrow> (nat \<times> nat) list"

text \<open>
  \<^verbatim>\<open>struct ThreadWorkItem\<close>, without the debug fields \<^verbatim>\<open>updates\<close> and
  \<^verbatim>\<open>timeTaken\<close>. The local counter \<^verbatim>\<open>updates\<close> of every worker is kept as the list of
  the (movie, user) pairs the kernel was applied to, in order: its length is the counter.
\<close>

record ThreadWorkItem =
  movieRangeStart :: nat
  movieRangeEnd :: nat
  userRangeStart :: nat
  userRangeEnd :: nat
  usersPerBlockSlice :: nat
  moviesPerBlockSlice :: nat
  sliceStart :: nat
  numSlices :: nat
  id_wi :: nat

type_synonym run_state = "Graph \<times> (nat \<times> nat) list"

definition set_edge_offset :: "nat \<Rightarrow> nat \<Rightarrow> Graph \<Rightarrow> Graph" where
  "set_edge_offset n v g = g\<lparr>node_data := (node_data g)(n := (node_data g n)\<lparr>edge_offset := v\<rparr>)\<rparr>"

subsection \<open>The loop every block kernel runs over the edges of a movie\<close>

text \<open>
  The call \<^verbatim>\<open>doGradientUpdate(movie_data, user_data, edge_rating, step_size)\<close> on the
  graph: both node arguments are references, and what the kernel returns is written back
  to the two nodes. A movie and a user are different nodes in a bipartite graph (the
  kernel declares its two arrays \<^verbatim>\<open>__restrict__\<close>); were they the same node, the
  embedding keeps the movie's value.
\<close>

definition kernel_call :: "bool \<Rightarrow> real \<Rightarrow> nat \<Rightarrow> nat \<Rightarrow> nat \<Rightarrow> Graph \<Rightarrow> error + Graph" where
  "kernel_call NDEBUG ss movie user edge_rating g =
     (case doGradientUpdate NDEBUG (node_data g movie) (node_data g user) edge_rating ss of
        Inl e \<Rightarrow> Inl e
      | Inr (movie_data, user_data) \<Rightarrow>
          Inr (g\<lparr>node_data := (node_data g)(user := user_data, movie := movie_data)\<rparr>))"

text \<open>\<^verbatim>\<open>++movie_data.updates\<close> in the body and \<^verbatim>\<open>++movie_data.edge_offset\<close> in the loop header.\<close>

definition count_and_step :: "nat \<Rightarrow> Graph \<Rightarrow> Graph" where
  "count_and_step movie g =
     g\<lparr>node_data := (node_data g)
        (movie := (node_data g movie)
           \<lparr>updates := (updates (node_data g movie) + 1) mod UINT_MOD,
            edge_offset := (edge_offset (node_data g movie) + 1) mod UINT_MOD\<rparr>)\<rparr>"

text \<open>
  \<^verbatim>\<open>for(; edge_it != edge_end; ++edge_it, ++movie_data.edge_offset)\<close> with the body
  \<^verbatim>\<open>if(user > bound) break; doGradientUpdate(...); ++movie_data.updates; updates++;\<close>.
  The list is what is left of the movie's edges from \<^verbatim>\<open>edge_it\<close> on.
\<close>

fun edge_loop ::
  "bool \<Rightarrow> real \<Rightarrow> nat \<Rightarrow> nat \<Rightarrow> (nat \<times> nat) list \<Rightarrow> run_state \<Rightarrow> error + run_state" where
  "edge_loop NDEBUG ss bound movie [] (g, calls) = Inr (g, calls)"
| "edge_loop NDEBUG ss bound movie ((user, edge_rating) # es) (g, calls) =
     (if user > bound then Inr (g, calls)
      else case kernel_call NDEBUG ss movie user edge_rating g of
          Inl e \<Rightarrow> Inl e
        | Inr g' \<Rightarrow>
            edge_loop NDEBUG ss bound movie es
              (count_and_step movie g', calls @ [(movie, user)]))"

text \<open>
  The body of the loop over the movies: the edge loop from the movie's cursor, then
  \<^verbatim>\<open>movie_data.edge_offset = 0\<close> when the kernel's test \<open>reset\<close> holds. The iterator
  \<^verbatim>\<open>edge_begin + edge_offset\<close> is the list of the edges without the first
  \<open>edge_offset\<close>; the program keeps every cursor at most the out-degree (\<open>cursors_ok\<close>
  below), and nothing is stated about a cursor beyond it.
\<close>

definition movie_body ::
  "bool \<Rightarrow> real \<Rightarrow> nat \<Rightarrow> bool \<Rightarrow> nat \<Rightarrow> run_state \<Rightarrow> error + run_state" where
  "movie_body NDEBUG ss bound reset movie = (\<lambda>(g, calls).
     case edge_loop NDEBUG ss bound movie
            (drop (edge_offset (node_data g movie)) (out_edges g movie)) (g, calls) of
       Inl e \<Rightarrow> Inl e
     | Inr (g', calls') \<Rightarrow> Inr (if reset then set_edge_offset movie 0 g' else g', calls'))"

fun movies_loop ::
  "(nat \<Rightarrow> run_state \<Rightarrow> error + run_state) \<Rightarrow> nat list \<Rightarrow> run_state \<Rightarrow> error + run_state" where
  "movies_loop body [] s = Inr s"
| "movies_loop body (movie # movies) s =
     (case body movie s of Inl e \<Rightarrow> Inl e | Inr s' \<Rightarrow> movies_loop body movies s')"

subsection \<open>The block kernels\<close>

text \<open>
  \<^verbatim>\<open>sgd_block\<close>: the bound is \<^verbatim>\<open>userRangeEnd\<close> itself; this kernel does not read
  \<^verbatim>\<open>NUM_MOVIE_NODES\<close>. All kernels take the same arguments, so that the scheduler can
  be given any of them.
\<close>

definition sgd_block ::
  "bool \<Rightarrow> nat \<Rightarrow> nat \<Rightarrow> real \<Rightarrow> ThreadWorkItem \<Rightarrow> run_state \<Rightarrow> error + run_state" where
  "sgd_block NDEBUG NUM_MOVIE_NODES NUM_USER_NODES ss workItem s =
     movies_loop
       (movie_body NDEBUG ss (userRangeEnd workItem) (userRangeEnd workItem = NUM_USER_NODES))
       [movieRangeStart workItem..<movieRangeEnd workItem] s"

text \<open>
  The step every sliced kernel takes to the end of the next slice:
  \<^verbatim>\<open>currentBlockSliceEnd += usersPerBlockSlice; if(currentBlockSliceEnd > userRangeEnd)
  currentBlockSliceEnd = userRangeEnd;\<close>
\<close>

definition next_slice_end :: "ThreadWorkItem \<Rightarrow> nat \<Rightarrow> nat" where
  "next_slice_end workItem cur =
     (let cur1 = (cur + usersPerBlockSlice workItem) mod UINT_MOD
      in if cur1 > userRangeEnd workItem then userRangeEnd workItem else cur1)"

text \<open>
  \<^verbatim>\<open>sgd_block_users\<close>: \<^verbatim>\<open>while(currentBlockSliceEnd < userRangeEnd)\<close>. The loop need
  not end (\<^verbatim>\<open>usersPerBlockSlice\<close> may be 0, and the sum may wrap), so it has fuel. Whether
  it goes on depends on \<^verbatim>\<open>currentBlockSliceEnd\<close> alone, a 32-bit value that each
  iteration computes from the one before: a loop that has not ended after \<open>2 ^ 32\<close>
  iterations has seen a value twice and never ends, and that is the fuel the kernel gets.
\<close>

fun block_users_loop ::
  "nat \<Rightarrow> bool \<Rightarrow> nat \<Rightarrow> nat \<Rightarrow> real \<Rightarrow> ThreadWorkItem \<Rightarrow> nat \<Rightarrow> run_state \<Rightarrow> error + run_state" where
  "block_users_loop 0 NDEBUG NUM_MOVIE_NODES NUM_USER_NODES ss workItem cur s =
     (if cur < userRangeEnd workItem then Inl Diverges else Inr s)"
| "block_users_loop (Suc fuel) NDEBUG NUM_MOVIE_NODES NUM_USER_NODES ss workItem cur s =
     (if cur < userRangeEnd workItem then
        let currentBlockSliceEnd = next_slice_end workItem cur;
            currentBlockSliceEndUserId = (currentBlockSliceEnd + NUM_MOVIE_NODES) mod UINT_MOD
        in case movies_loop
                  (movie_body NDEBUG ss currentBlockSliceEndUserId
                     (currentBlockSliceEnd = NUM_USER_NODES))
                  [movieRangeStart workItem..<movieRangeEnd workItem] s of
             Inl e \<Rightarrow> Inl e
           | Inr s' \<Rightarrow>
               block_users_loop fuel NDEBUG NUM_MOVIE_NODES NUM_USER_NODES ss workItem
                 currentBlockSliceEnd s'
      else Inr s)"

definition sgd_block_users ::
  "bool \<Rightarrow> nat \<Rightarrow> nat \<Rightarrow> real \<Rightarrow> ThreadWorkItem \<Rightarrow> run_state \<Rightarrow> error + run_state" where
  "sgd_block_users NDEBUG NUM_MOVIE_NODES NUM_USER_NODES ss workItem s =
     block_users_loop UINT_MOD NDEBUG NUM_MOVIE_NODES NUM_USER_NODES ss workItem
       (userRangeStart workItem) s"

text \<open>
  \<^verbatim>\<open>sgd_block_users_movies\<close>: inside a slice of users, the movies of the row in bands
  of \<^verbatim>\<open>moviesPerBlockSlice\<close>. The band loop
  \<^verbatim>\<open>while(currentMovieSliceEnd < movieRangeEnd)\<close> has fuel for the same reason. A band
  is the movies from the old \<^verbatim>\<open>currentMovieSliceEnd\<close> up to the new one; nothing is
  stated about a sum that wraps below the band's start.
\<close>

definition next_movie_slice_end :: "ThreadWorkItem \<Rightarrow> nat \<Rightarrow> nat" where
  "next_movie_slice_end workItem cur =
     (let cur1 = (cur + moviesPerBlockSlice workItem) mod UINT_MOD
      in if cur1 > movieRangeEnd workItem then movieRangeEnd workItem else cur1)"

fun movie_bands_loop ::
  "nat \<Rightarrow> bool \<Rightarrow> real \<Rightarrow> nat \<Rightarrow> bool \<Rightarrow> ThreadWorkItem \<Rightarrow> nat \<Rightarrow> run_state \<Rightarrow> error + run_state" where
  "movie_bands_loop 0 NDEBUG ss bound reset workItem cur s =
     (if cur < movieRangeEnd workItem then Inl Diverges else Inr s)"
| "movie_bands_loop (Suc fuel) NDEBUG ss bound reset workItem cur s =
     (if cur < movieRangeEnd workItem then
        let currentMovieSliceEnd = next_movie_slice_end workItem cur
        in case movies_loop (movie_body NDEBUG ss bound reset)
                  [cur..<currentMovieSliceEnd] s of
             Inl e \<Rightarrow> Inl e
           | Inr s' \<Rightarrow>
               movie_bands_loop fuel NDEBUG ss bound reset workItem currentMovieSliceEnd s'
      else Inr s)"

fun block_users_movies_loop ::
  "nat \<Rightarrow> bool \<Rightarrow> nat \<Rightarrow> nat \<Rightarrow> real \<Rightarrow> ThreadWorkItem \<Rightarrow> nat \<Rightarrow> run_state \<Rightarrow> error + run_state" where
  "block_users_movies_loop 0 NDEBUG NUM_MOVIE_NODES NUM_USER_NODES ss workItem cur s =
     (if cur < userRangeEnd workItem then Inl Diverges else Inr s)"
| "block_users_movies_loop (Suc fuel) NDEBUG NUM_MOVIE_NODES NUM_USER_NODES ss workItem cur s =
     (if cur < userRangeEnd workItem then
        let currentBlockSliceEnd = next_slice_end workItem cur;
            currentBlockSliceEndUserId = (currentBlockSliceEnd + NUM_MOVIE_NODES) mod UINT_MOD
        in case movie_bands_loop UINT_MOD NDEBUG ss currentBlockSliceEndUserId
                  (currentBlockSliceEnd = NUM_USER_NODES) workItem
                  (movieRangeStart workItem) s of
             Inl e \<Rightarrow> Inl e
           | Inr s' \<Rightarrow>
               block_users_movies_loop fuel NDEBUG NUM_MOVIE_NODES NUM_USER_NODES ss workItem
                 currentBlockSliceEnd s'
      else Inr s)"

definition sgd_block_users_movies ::
  "bool \<Rightarrow> nat \<Rightarrow> nat \<Rightarrow> real \<Rightarrow> ThreadWorkItem \<Rightarrow> run_state \<Rightarrow> error + run_state" where
  "sgd_block_users_movies NDEBUG NUM_MOVIE_NODES NUM_USER_NODES ss workItem s =
     block_users_movies_loop UINT_MOD NDEBUG NUM_MOVIE_NODES NUM_USER_NODES ss workItem
       (userRangeStart workItem) s"

subsection \<open>The cursor advancer\<close>

definition userIdToUserNode :: "nat \<Rightarrow> nat \<Rightarrow> nat" where
  "userIdToUserNode NUM_MOVIE_NODES userId = (userId + NUM_MOVIE_NODES + 1) mod UINT_MOD"

text \<open>The edge loop of \<^verbatim>\<open>advance_edge_iterators\<close>: the cursor moves, nothing else.\<close>

fun advance_edges :: "nat \<Rightarrow> (nat \<times> nat) list \<Rightarrow> nat \<Rightarrow> nat" where
  "advance_edges bound [] off = off"
| "advance_edges bound ((user, edge_rating) # es) off =
     (if user > bound then off else advance_edges bound es ((off + 1) mod UINT_MOD))"

definition advance_movie :: "nat \<Rightarrow> Graph \<Rightarrow> nat \<Rightarrow> Graph" where
  "advance_movie bound g movie =
     set_edge_offset movie
       (advance_edges bound (drop (edge_offset (node_data g movie)) (out_edges g movie))
          (edge_offset (node_data g movie))) g"

definition advance_edge_iterators :: "nat \<Rightarrow> Graph \<Rightarrow> ThreadWorkItem \<Rightarrow> Graph" where
  "advance_edge_iterators NUM_MOVIE_NODES g workItem =
     foldl (advance_movie (userIdToUserNode NUM_MOVIE_NODES (userRangeStart workItem))) g
       [movieRangeStart workItem..<movieRangeEnd workItem]"

subsection \<open>The grid scheduler\<close>

text \<open>
  \<^verbatim>\<open>runBlockSlices<BlockFn>\<close>. \<^verbatim>\<open>Galois::do_all\<close> hands one work item to each thread;
  the embedding runs the work items one after the other, in index order. The cursor and
  the update counter of a movie are written by the worker of its row only, so they do
  not depend on that order. \<open>numWorkItems\<close> is the number of active threads, at least 1.
  The fields \<^verbatim>\<open>sliceStart\<close> and \<^verbatim>\<open>numSlices\<close>, which this scheduler leaves unset and no
  block kernel reads, are 0.
\<close>

definition userRangeStartPoints :: "nat \<Rightarrow> nat \<Rightarrow> nat \<Rightarrow> nat" where
  "userRangeStartPoints numWorkItems NUM_USER_NODES i = (NUM_USER_NODES div numWorkItems) * i"

definition userRangeEndPoints :: "nat \<Rightarrow> nat \<Rightarrow> nat \<Rightarrow> nat" where
  "userRangeEndPoints numWorkItems NUM_USER_NODES i =
     (if i = numWorkItems - 1 then NUM_USER_NODES
      else (i + 1) * (NUM_USER_NODES div numWorkItems))"

definition block_work_item :: "nat \<Rightarrow> nat \<Rightarrow> nat \<Rightarrow> nat \<Rightarrow> nat \<Rightarrow> nat \<Rightarrow> ThreadWorkItem" where
  "block_work_item numWorkItems NUM_MOVIE_NODES NUM_USER_NODES ups mps i =
     \<lparr>movieRangeStart = (NUM_MOVIE_NODES div numWorkItems) * i,
      movieRangeEnd = (if i = numWorkItems - 1 then NUM_MOVIE_NODES
                       else (NUM_MOVIE_NODES div numWorkItems) * i
                              + NUM_MOVIE_NODES div numWorkItems),
      userRangeStart = userRangeStartPoints numWorkItems NUM_USER_NODES i,
      userRangeEnd = userRangeEndPoints numWorkItems NUM_USER_NODES i,
      usersPerBlockSlice = ups,
      moviesPerBlockSlice = mps,
      sliceStart = 0,
      numSlices = 0,
      id_wi = i\<rparr>"

definition block_work_items :: "nat \<Rightarrow> nat \<Rightarrow> nat \<Rightarrow> nat \<Rightarrow> nat \<Rightarrow> ThreadWorkItem list" where
  "block_work_items numWorkItems NUM_MOVIE_NODES NUM_USER_NODES ups mps =
     map (block_work_item numWorkItems NUM_MOVIE_NODES NUM_USER_NODES ups mps)
       [0..<numWorkItems]"

text \<open>One \<^verbatim>\<open>do_all\<close> over the work items with a block kernel.\<close>

fun do_all ::
  "(ThreadWorkItem \<Rightarrow> run_state \<Rightarrow> error + run_state) \<Rightarrow> ThreadWorkItem list \<Rightarrow> run_state
     \<Rightarrow> error + run_state" where
  "do_all blockFn [] s = Inr s"
| "do_all blockFn (workItem # workItems) s =
     (case blockFn workItem s of Inl e \<Rightarrow> Inl e | Inr s' \<Rightarrow> do_all blockFn workItems s')"

text \<open>After sub-step \<open>j\<close>, work item \<open>k\<close> moves to the column \<open>(j + 1 + k) mod numWorkItems\<close>.\<close>

definition move_right :: "nat \<Rightarrow> nat \<Rightarrow> nat \<Rightarrow> ThreadWorkItem list \<Rightarrow> ThreadWorkItem list" where
  "move_right numWorkItems NUM_USER_NODES j workItems =
     map (\<lambda>k. (workItems ! k)
            \<lparr>userRangeStart :=
               userRangeStartPoints numWorkItems NUM_USER_NODES ((j + 1 + k) mod numWorkItems),
             userRangeEnd :=
               userRangeEndPoints numWorkItems NUM_USER_NODES ((j + 1 + k) mod numWorkItems)\<rparr>)
       [0..<numWorkItems]"

text \<open>
  The work item of worker \<open>k\<close> while it is on column \<open>column\<close>: the scheduler writes
  the two bounds of the column and leaves the other fields as it set them at the start.
\<close>

definition work_item_on :: "nat \<Rightarrow> nat \<Rightarrow> nat \<Rightarrow> nat \<Rightarrow> nat \<Rightarrow> nat \<Rightarrow> nat \<Rightarrow> ThreadWorkItem" where
  "work_item_on numWorkItems NUM_MOVIE_NODES NUM_USER_NODES ups mps column k =
     (block_work_item numWorkItems NUM_MOVIE_NODES NUM_USER_NODES ups mps k)
       \<lparr>userRangeStart := userRangeStartPoints numWorkItems NUM_USER_NODES column,
        userRangeEnd := userRangeEndPoints numWorkItems NUM_USER_NODES column\<rparr>"

text \<open>
  One sub-step (the body of the loop over \<open>j\<close>), one round (the loop over \<open>j\<close>) and the
  loop over the rounds. The state carries the work items.
\<close>

definition block_substep ::
  "(ThreadWorkItem \<Rightarrow> run_state \<Rightarrow> error + run_state) \<Rightarrow> nat \<Rightarrow> nat \<Rightarrow> nat
     \<Rightarrow> ThreadWorkItem list \<times> run_state \<Rightarrow> error + ThreadWorkItem list \<times> run_state" where
  "block_substep blockFn numWorkItems NUM_USER_NODES j = (\<lambda>(workItems, s).
     case do_all blockFn workItems s of
       Inl e \<Rightarrow> Inl e
     | Inr s' \<Rightarrow> Inr (move_right numWorkItems NUM_USER_NODES j workItems, s'))"

fun block_substeps ::
  "(ThreadWorkItem \<Rightarrow> run_state \<Rightarrow> error + run_state) \<Rightarrow> nat \<Rightarrow> nat \<Rightarrow> nat list
     \<Rightarrow> ThreadWorkItem list \<times> run_state \<Rightarrow> error + ThreadWorkItem list \<times> run_state" where
  "block_substeps blockFn numWorkItems NUM_USER_NODES [] ws = Inr ws"
| "block_substeps blockFn numWorkItems NUM_USER_NODES (j # js) ws =
     (case block_substep blockFn numWorkItems NUM_USER_NODES j ws of
        Inl e \<Rightarrow> Inl e
      | Inr ws' \<Rightarrow> block_substeps blockFn numWorkItems NUM_USER_NODES js ws')"

definition block_round ::
  "(ThreadWorkItem \<Rightarrow> run_state \<Rightarrow> error + run_state) \<Rightarrow> nat \<Rightarrow> nat
     \<Rightarrow> ThreadWorkItem list \<times> run_state \<Rightarrow> error + ThreadWorkItem list \<times> run_state" where
  "block_round blockFn numWorkItems NUM_USER_NODES ws =
     block_substeps blockFn numWorkItems NUM_USER_NODES [0..<numWorkItems] ws"

fun block_rounds ::
  "(real \<Rightarrow> ThreadWorkItem \<Rightarrow> run_state \<Rightarrow> error + run_state) \<Rightarrow> (nat \<Rightarrow> real) \<Rightarrow> nat \<Rightarrow> nat
     \<Rightarrow> nat list \<Rightarrow> ThreadWorkItem list \<times> run_state
     \<Rightarrow> error + ThreadWorkItem list \<times> run_state" where
  "block_rounds blockFn lf numWorkItems NUM_USER_NODES [] ws = Inr ws"
| "block_rounds blockFn lf numWorkItems NUM_USER_NODES (update # updates') ws =
     (case block_round (blockFn (lf update)) numWorkItems NUM_USER_NODES ws of
        Inl e \<Rightarrow> Inl e
      | Inr ws' \<Rightarrow> block_rounds blockFn lf numWorkItems NUM_USER_NODES updates' ws')"

text \<open>The state before round 0: the work items, and the graph after the advancer.\<close>

definition block_start ::
  "nat \<Rightarrow> nat \<Rightarrow> nat \<Rightarrow> nat \<Rightarrow> nat \<Rightarrow> Graph \<Rightarrow> ThreadWorkItem list \<times> run_state" where
  "block_start numWorkItems NUM_MOVIE_NODES NUM_USER_NODES ups mps g =
     (let workItems = block_work_items numWorkItems NUM_MOVIE_NODES NUM_USER_NODES ups mps
      in (workItems, (foldl (advance_edge_iterators NUM_MOVIE_NODES) g workItems, [])))"

definition runBlockSlices ::
  "(real \<Rightarrow> ThreadWorkItem \<Rightarrow> run_state \<Rightarrow> error + run_state) \<Rightarrow> (nat \<Rightarrow> real) \<Rightarrow> nat \<Rightarrow> nat
     \<Rightarrow> nat \<Rightarrow> nat \<Rightarrow> nat \<Rightarrow> Graph \<Rightarrow> error + ThreadWorkItem list \<times> run_state" where
  "runBlockSlices blockFn lf numWorkItems NUM_MOVIE_NODES NUM_USER_NODES ups mps g =
     block_rounds blockFn lf numWorkItems NUM_USER_NODES [0..<MAX_MOVIE_UPDATES]
       (block_start numWorkItems NUM_MOVIE_NODES NUM_USER_NODES ups mps g)"


subsection \<open>The node-by-movie scheduler\<close>

text \<open>
  \<^verbatim>\<open>sgd_node_movie\<close>: the kernel on every edge of the node; neither the cursor nor the
  update counter is written. The source has no counter here; the list of the kernel's
  applications is kept as for the block kernels. \<^verbatim>\<open>Galois::for_each\<close> is the loop
  \<open>movies_loop\<close> over the list \<open>Movies\<close>, in list order.
\<close>

fun node_movie_edges ::
  "bool \<Rightarrow> real \<Rightarrow> nat \<Rightarrow> (nat \<times> nat) list \<Rightarrow> run_state \<Rightarrow> error + run_state" where
  "node_movie_edges NDEBUG ss node [] s = Inr s"
| "node_movie_edges NDEBUG ss node ((user, edge_rating) # es) (g, calls) =
     (case kernel_call NDEBUG ss node user edge_rating g of
        Inl e \<Rightarrow> Inl e
      | Inr g' \<Rightarrow> node_movie_edges NDEBUG ss node es (g', calls @ [(node, user)]))"

definition sgd_node_movie :: "bool \<Rightarrow> real \<Rightarrow> nat \<Rightarrow> run_state \<Rightarrow> error + run_state" where
  "sgd_node_movie NDEBUG ss node = (\<lambda>(g, calls).
     node_movie_edges NDEBUG ss node (out_edges g node) (g, calls))"

definition Movies :: "Graph \<Rightarrow> nat list" where
  "Movies g = filter (\<lambda>n. out_edges g n \<noteq> []) [0..<num_nodes g]"

fun node_movie_rounds ::
  "bool \<Rightarrow> (nat \<Rightarrow> real) \<Rightarrow> nat list \<Rightarrow> nat list \<Rightarrow> run_state \<Rightarrow> error + run_state" where
  "node_movie_rounds NDEBUG lf movies [] s = Inr s"
| "node_movie_rounds NDEBUG lf movies (i # is) s =
     (case movies_loop (sgd_node_movie NDEBUG (lf i)) movies s of
        Inl e \<Rightarrow> Inl e
      | Inr s' \<Rightarrow> node_movie_rounds NDEBUG lf movies is s')"

definition sgd_node_movie_go :: "bool \<Rightarrow> (nat \<Rightarrow> real) \<Rightarrow> Graph \<Rightarrow> error + run_state" where
  "sgd_node_movie_go NDEBUG lf g = node_movie_rounds NDEBUG lf (Movies g) [0..<10] (g, [])"

subsection \<open>The edge-by-movie task\<close>

text \<open>
  \<^verbatim>\<open>sgd_edge_movie::operator()\<close>, one task: the kernel on the edge at the movie's
  cursor; then the cursor moves, and the task either ends the movie (cursor back to 0) or
  pushes the movie on the work list again, which is the boolean of the result. The
  update counter is not written. \<^verbatim>\<open>std::advance\<close> to the end of the edges, followed by
  the read of the edge, is the error.
\<close>

definition sgd_edge_movie ::
  "bool \<Rightarrow> real \<Rightarrow> nat \<Rightarrow> run_state \<Rightarrow> error + run_state \<times> bool" where
  "sgd_edge_movie NDEBUG ss node = (\<lambda>(g, calls).
     if out_edges g node = [] then Inr ((g, calls), False)
     else case drop (edge_offset (node_data g node)) (out_edges g node) of
         [] \<Rightarrow> Inl IteratorPastEnd
       | (user, edge_rating) # rest \<Rightarrow>
           (case kernel_call NDEBUG ss node user edge_rating g of
              Inl e \<Rightarrow> Inl e
            | Inr g' \<Rightarrow>
                let g1 = set_edge_offset node
                           ((edge_offset (node_data g' node) + 1) mod UINT_MOD) g'
                in if rest = [] then Inr ((set_edge_offset node 0 g1, calls @ [(node, user)]), False)
                   else Inr ((g1, calls @ [(node, user)]), True)))"

subsection \<open>Marching slices\<close>

text \<open>
  \<^verbatim>\<open>sgd_march\<close>, one worker run on its own. Of the lock array only the length is kept:
  a lock taken is released in the same iteration, so a worker alone always finds its lock
  free; an index past the end of the array is the error. The result lists the slices the
  worker acquired, in order. The loop variables are \<^verbatim>\<open>currentBlockSliceEnd\<close>,
  \<^verbatim>\<open>currentSliceId\<close> and \<^verbatim>\<open>sliceUpdates\<close>.
\<close>

function march_loop ::
  "bool \<Rightarrow> nat \<Rightarrow> nat \<Rightarrow> real \<Rightarrow> nat \<Rightarrow> ThreadWorkItem \<Rightarrow> nat \<times> nat \<times> nat
     \<Rightarrow> run_state \<times> nat list \<Rightarrow> error + run_state \<times> nat list" where
  "march_loop NDEBUG NUM_MOVIE_NODES NUM_USER_NODES ss num_locks workItem
       (cur, currentSliceId, sliceUpdates) (s, acquired) =
     (if sliceUpdates < (MAX_MOVIE_UPDATES * numSlices workItem) mod UINT_MOD then
        if \<not> currentSliceId < num_locks then Inl LockIndexOutOfRange
        else
          let currentBlockSliceEnd = next_slice_end workItem cur;
              currentBlockSliceEndUserId = (currentBlockSliceEnd + NUM_MOVIE_NODES) mod UINT_MOD
          in case movies_loop
                    (movie_body NDEBUG ss currentBlockSliceEndUserId
                       (currentBlockSliceEnd = NUM_USER_NODES))
                    [movieRangeStart workItem..<movieRangeEnd workItem] s of
               Inl e \<Rightarrow> Inl e
             | Inr s' \<Rightarrow>
                 march_loop NDEBUG NUM_MOVIE_NODES NUM_USER_NODES ss num_locks workItem
                   (if currentBlockSliceEnd = userRangeEnd workItem
                    then (0, 0, (sliceUpdates + 1) mod UINT_MOD)
                    else (currentBlockSliceEnd, (currentSliceId + 1) mod UINT_MOD,
                          (sliceUpdates + 1) mod UINT_MOD))
                   (s', acquired @ [currentSliceId])
      else Inr (s, acquired))"
  by pat_completeness auto
termination
proof (relation "measure (\<lambda>(NDEBUG, M, U, ss, num_locks, workItem, (cur, sliceId, sliceUpdates), sa).
          (MAX_MOVIE_UPDATES * numSlices workItem) mod UINT_MOD - sliceUpdates)")
  show "wf (measure (\<lambda>(NDEBUG, M, U, ss, num_locks, workItem, (cur, sliceId, sliceUpdates), sa).
          (MAX_MOVIE_UPDATES * numSlices workItem) mod UINT_MOD - sliceUpdates))"
    by simp
next
  fix NDEBUG :: bool and M U :: nat and ss :: real and num_locks :: nat
    and workItem :: ThreadWorkItem and cur currentSliceId sliceUpdates :: nat
    and s :: run_state and acquired :: "nat list" and xa xb and x2 :: run_state
  assume lt: "sliceUpdates < MAX_MOVIE_UPDATES * numSlices workItem mod UINT_MOD"
  have "MAX_MOVIE_UPDATES * numSlices workItem mod UINT_MOD < UINT_MOD"
    by (simp add: UINT_MOD_def)
  with lt have "(sliceUpdates + 1) mod UINT_MOD = sliceUpdates + 1"
    by simp
  with lt show "((NDEBUG, M, U, ss, num_locks, workItem,
           if xa = userRangeEnd workItem then (0, 0, (sliceUpdates + 1) mod UINT_MOD)
           else (xa, (currentSliceId + 1) mod UINT_MOD, (sliceUpdates + 1) mod UINT_MOD),
           x2, acquired @ [currentSliceId]),
          NDEBUG, M, U, ss, num_locks, workItem, (cur, currentSliceId, sliceUpdates), s, acquired)
         \<in> measure (\<lambda>(NDEBUG, M, U, ss, num_locks, workItem, (cur, sliceId, sliceUpdates), sa).
          (MAX_MOVIE_UPDATES * numSlices workItem) mod UINT_MOD - sliceUpdates)"
    by simp
qed

declare march_loop.simps [simp del]

definition sgd_march ::
  "bool \<Rightarrow> nat \<Rightarrow> nat \<Rightarrow> real \<Rightarrow> nat \<Rightarrow> ThreadWorkItem \<Rightarrow> run_state \<Rightarrow> error + run_state \<times> nat list" where
  "sgd_march NDEBUG NUM_MOVIE_NODES NUM_USER_NODES ss num_locks workItem s =
     march_loop NDEBUG NUM_MOVIE_NODES NUM_USER_NODES ss num_locks workItem
       (userRangeStart workItem, sliceStart workItem, 0) (s, [])"

text \<open>
  \<^verbatim>\<open>runSliceMarch\<close>. The fields of a work item that the source leaves unset are 0. The
  workers run one after the other; the result has the acquired slices of each.
\<close>

definition march_work_item :: "nat \<Rightarrow> nat \<Rightarrow> nat \<Rightarrow> nat \<Rightarrow> nat \<Rightarrow> ThreadWorkItem" where
  "march_work_item numWorkItems NUM_MOVIE_NODES NUM_USER_NODES ups i =
     \<lparr>movieRangeStart = (NUM_MOVIE_NODES div numWorkItems) * i,
      movieRangeEnd = (if i = numWorkItems - 1 then NUM_MOVIE_NODES
                       else (NUM_MOVIE_NODES div numWorkItems) * i
                              + NUM_MOVIE_NODES div numWorkItems),
      userRangeStart = (NUM_USER_NODES div numWorkItems) * i,
      userRangeEnd = NUM_USER_NODES,
      usersPerBlockSlice = ups,
      moviesPerBlockSlice = 0,
      sliceStart = ((NUM_USER_NODES div ups) div numWorkItems) * i,
      numSlices = NUM_USER_NODES div ups,
      id_wi = i\<rparr>"

fun do_all_march ::
  "(ThreadWorkItem \<Rightarrow> run_state \<Rightarrow> error + run_state \<times> nat list) \<Rightarrow> ThreadWorkItem list
     \<Rightarrow> run_state \<times> nat list list \<Rightarrow> error + run_state \<times> nat list list" where
  "do_all_march worker [] st = Inr st"
| "do_all_march worker (workItem # workItems) (s, acquired) =
     (case worker workItem s of
        Inl e \<Rightarrow> Inl e
      | Inr (s', a) \<Rightarrow> do_all_march worker workItems (s', acquired @ [a]))"

definition runSliceMarch ::
  "bool \<Rightarrow> (nat \<Rightarrow> real) \<Rightarrow> nat \<Rightarrow> nat \<Rightarrow> nat \<Rightarrow> nat \<Rightarrow> Graph
     \<Rightarrow> error + run_state \<times> nat list list" where
  "runSliceMarch NDEBUG lf numWorkItems NUM_MOVIE_NODES NUM_USER_NODES ups g =
     (if ups = 0 then Inl DivisionByZero
      else
        let workItems = map (march_work_item numWorkItems NUM_MOVIE_NODES NUM_USER_NODES ups)
                          [0..<numWorkItems];
            step = lf 1
        in do_all_march
             (sgd_march NDEBUG NUM_MOVIE_NODES NUM_USER_NODES step (NUM_USER_NODES div ups))
             workItems
             ((foldl (advance_edge_iterators NUM_MOVIE_NODES) g workItems, []), []))"

subsection \<open>Initialisation\<close>

text \<open>
  \<^verbatim>\<open>genRand\<close> takes what \<^verbatim>\<open>std::rand()\<close> returned, a value from 0 to \<^verbatim>\<open>RAND_MAX\<close>;
  \<^verbatim>\<open>RAND_MAX\<close> is the C library's constant, a parameter here. The generator after
  \<^verbatim>\<open>std::srand(SEED)\<close> is the sequence \<open>rand\<close> of its results, call by call.
\<close>

definition genRand :: "nat \<Rightarrow> nat \<Rightarrow> real" where
  "genRand RAND_MAX r = 2.0 * (real r / real RAND_MAX) - 1.0"

text \<open>
  The body of the loop of \<^verbatim>\<open>initializeGraphData\<close> for the node \<open>n\<close>. The state is the
  graph, the number of calls of \<^verbatim>\<open>rand\<close> so far, and the three counters.
\<close>

definition init_node ::
  "nat \<Rightarrow> (nat \<Rightarrow> nat) \<Rightarrow> Graph \<times> nat \<times> nat \<times> nat \<times> nat \<Rightarrow> nat \<Rightarrow> Graph \<times> nat \<times> nat \<times> nat \<times> nat" where
  "init_node RAND_MAX rand = (\<lambda>(g, calls, numMovieNodes, numUserNodes, numRatings) n.
     let num_edges = length (out_edges g n) mod UINT_MOD;
         data = (node_data g n)
           \<lparr>latent_vector :=
              map (\<lambda>i. genRand RAND_MAX (rand (calls + i))) [0..<LATENT_VECTOR_SIZE],
            updates := 0, edge_offset := 0\<rparr>
     in (g\<lparr>node_data := (node_data g)(n := data)\<rparr>,
         calls + LATENT_VECTOR_SIZE,
         if num_edges > 0 then (numMovieNodes + 1) mod UINT_MOD else numMovieNodes,
         if num_edges > 0 then numUserNodes else (numUserNodes + 1) mod UINT_MOD,
         (numRatings + num_edges) mod UINT_MOD))"

definition initializeGraphData :: "nat \<Rightarrow> (nat \<Rightarrow> nat) \<Rightarrow> Graph \<Rightarrow> Graph \<times> nat \<times> nat" where
  "initializeGraphData RAND_MAX rand g =
     (case foldl (init_node RAND_MAX rand) (g, 0, 0, 0, 0) [0..<num_nodes g] of
        (g', calls, numMovieNodes, numUserNodes, numRatings) \<Rightarrow>
          (g', numMovieNodes, numUserNodes))"

subsection \<open>The invariant of the cursors\<close>

text \<open>
  Every cursor is at most the out-degree of its node, and every out-degree is an
  \<^verbatim>\<open>unsigned int\<close>. \<^verbatim>\<open>initializeGraphData\<close> sets every cursor to 0, and the loops keep
  the invariant (\<open>movies_loop_effect\<close>).
\<close>

definition cursors_ok :: "Graph \<Rightarrow> bool" where
  "cursors_ok g \<longleftrightarrow>
     (\<forall>n. edge_offset (node_data g n) \<le> length (out_edges g n) \<and>
          length (out_edges g n) < UINT_MOD)"

subsection \<open>Inputs of the examples\<close>

text \<open>
  The two nodes of the spec's 1\<times>1 scenario, \<open>v_m = [1, 0]\<close> and \<open>v_u = [0, 1]\<close>, in the
  20 components the program has.
\<close>

definition scenario_movie :: Node where
  "scenario_movie =
     \<lparr>latent_vector = [1, 0, 0, 0, 0, 0, 0, 0, 0, 0, 0, 0, 0, 0, 0, 0, 0, 0, 0, 0],
      updates = 0, edge_offset = 0\<rparr>"

definition scenario_user :: Node where
  "scenario_user =
     \<lparr>latent_vector = [0, 1, 0, 0, 0, 0, 0, 0, 0, 0, 0, 0, 0, 0, 0, 0, 0, 0, 0, 0],
      updates = 0, edge_offset = 0\<rparr>"

text \<open>A node as \<^verbatim>\<open>initializeGraphData\<close> leaves it when every \<^verbatim>\<open>rand()\<close> is \<^verbatim>\<open>RAND_MAX\<close>.\<close>

definition ones_node :: Node where
  "ones_node =
     \<lparr>latent_vector = [1, 1, 1, 1, 1, 1, 1, 1, 1, 1, 1, 1, 1, 1, 1, 1, 1, 1, 1, 1],
      updates = 0, edge_offset = 0\<rparr>"

text \<open>
  The spec's 2\<times>2 graph: movies 0 and 1, users 2 and 3, edges 0\<rightarrow>2 (rating 1), 0\<rightarrow>3 (2),
  1\<rightarrow>2 (3), 1\<rightarrow>3 (4).
\<close>

definition graph_2x2 :: Graph where
  "graph_2x2 =
     \<lparr>num_nodes = 4, node_data = (\<lambda>n. ones_node),
      out_edges = (\<lambda>n. if n = 0 then [(2, 1), (3, 2)]
                        else if n = 1 then [(2, 3), (3, 4)] else [])\<rparr>"

text \<open>The spec's cursor graph: movie 0, users 1 to 4, an edge to each (rating 3).\<close>

definition graph_1x4 :: Graph where
  "graph_1x4 =
     \<lparr>num_nodes = 5, node_data = (\<lambda>n. ones_node),
      out_edges = (\<lambda>n. if n = 0 then [(1, 3), (2, 3), (3, 3), (4, 3)] else [])\<rparr>"

text \<open>Movies 0 and 1, users 2 to 5; movie 0 rates user 2, movie 1 rates all four.\<close>

definition graph_2x4 :: Graph where
  "graph_2x4 =
     \<lparr>num_nodes = 6, node_data = (\<lambda>n. ones_node),
      out_edges = (\<lambda>n. if n = 0 then [(2, 1)]
                        else if n = 1 then [(2, 3), (3, 3), (4, 3), (5, 3)] else [])\<rparr>"

text \<open>One movie, one user, one edge with rating 3.\<close>

definition graph_1x1 :: Graph where
  "graph_1x1 =
     \<lparr>num_nodes = 2, node_data = (\<lambda>n. ones_node),
      out_edges = (\<lambda>n. if n = 0 then [(1, 3)] else [])\<rparr>"

text \<open>One movie and five users, the movie rating the first user.\<close>

definition graph_1x5 :: Graph where
  "graph_1x5 =
     \<lparr>num_nodes = 6, node_data = (\<lambda>n. ones_node),
      out_edges = (\<lambda>n. if n = 0 then [(1, 3)] else [])\<rparr>"

text \<open>One movie rating the first of 858993460 users.\<close>

definition graph_1xmany :: Graph where
  "graph_1xmany =
     \<lparr>num_nodes = 858993461, node_data = (\<lambda>n. ones_node),
      out_edges = (\<lambda>n. if n = 0 then [(1, 3)] else [])\<rparr>"

text \<open>A movie whose dot product with \<open>ones_node\<close> is 3.\<close>

definition rated_movie :: Node where
  "rated_movie =
     \<lparr>latent_vector = [1, 1, 1, 0, 0, 0, 0, 0, 0, 0, 0, 0, 0, 0, 0, 0, 0, 0, 0, 0],
      updates = 0, edge_offset = 0\<rparr>"

section \<open>Properties\<close>

subsection \<open>The kernel in closed form\<close>

lemma dot_fold_sum:
  "foldl (\<lambda>dp i. dp + f i) z [0..<n] = z + (\<Sum>i<n. f i)"
  by (induction n) (simp_all add: add.assoc)

lemma dot_loop_sum:
  "dot_loop m u = (\<Sum>i<LATENT_VECTOR_SIZE. u ! i * m ! i)"
  by (simp add: dot_loop_def dot_fold_sum)

lemma dot_loop_dot:
  "dot_loop m u = (\<Sum>i<LATENT_VECTOR_SIZE. m ! i * u ! i)"
  by (simp add: dot_loop_sum mult.commute)

lemma gradient_fold:
  assumes "n \<le> length m" and "n \<le> length u"
  shows "foldl (\<lambda>s i. gradient_step e ss i s) (m, u) [0..<n] =
           (map (\<lambda>i. m ! i + ss * (e * u ! i - LAMBDA * m ! i)) [0..<n] @ drop n m,
            map (\<lambda>i. u ! i + ss * (e * m ! i - LAMBDA * u ! i)) [0..<n] @ drop n u)"
  using assms
proof (induction n)
  case 0
  then show ?case by simp
next
  case (Suc n)
  then have n: "n < length m" "n < length u" by simp_all
  have dm: "drop n m = m ! n # drop (Suc n) m"
    using n by (simp add: Cons_nth_drop_Suc)
  have du: "drop n u = u ! n # drop (Suc n) u"
    using n by (simp add: Cons_nth_drop_Suc)
  from Suc n show ?case
    by (simp add: gradient_step_def Let_def dm du nth_append list_update_append)
qed

lemma doGradientUpdate_Inr:
  assumes "length (latent_vector m) = LATENT_VECTOR_SIZE"
      and "length (latent_vector u) = LATENT_VECTOR_SIZE"
      and "doGradientUpdate NDEBUG m u r ss = Inr (m', u')"
  shows "m' = m\<lparr>latent_vector :=
                map (\<lambda>i. latent_vector m ! i
                      + ss * ((real r - dot_loop (latent_vector m) (latent_vector u))
                                * latent_vector u ! i - LAMBDA * latent_vector m ! i))
                  [0..<LATENT_VECTOR_SIZE]\<rparr>"
    and "u' = u\<lparr>latent_vector :=
                map (\<lambda>i. latent_vector u ! i
                      + ss * ((real r - dot_loop (latent_vector m) (latent_vector u))
                                * latent_vector m ! i - LAMBDA * latent_vector u ! i))
                  [0..<LATENT_VECTOR_SIZE]\<rparr>"
  using assms
  by (auto simp: doGradientUpdate_def vector_dot_def Let_def gradient_fold
           split: if_splits)

lemma doGradientUpdate_returns:
  "NDEBUG \<or> isnormal (dot_loop (latent_vector m) (latent_vector u)) \<Longrightarrow>
     \<exists>m' u'. doGradientUpdate NDEBUG m u r ss = Inr (m', u')"
  by (auto simp: doGradientUpdate_def vector_dot_def Let_def split: prod.splits)

lemma doGradientUpdate_frame:
  assumes "doGradientUpdate NDEBUG m u r ss = Inr (m', u')"
  shows "updates m' = updates m" "edge_offset m' = edge_offset m"
        "updates u' = updates u" "edge_offset u' = edge_offset u"
  using assms
  by (auto simp: doGradientUpdate_def vector_dot_def Let_def
           split: if_splits prod.splits)




lemma upt_latent:
  "[0..<LATENT_VECTOR_SIZE] = [0,1,2,3,4,5,6,7,8,9,10,11,12,13,14,15,16,17,18,19]"
  by (simp add: LATENT_VECTOR_SIZE_def upt_rec)

lemma doGradientUpdate_eq:
  assumes "length (latent_vector m) = LATENT_VECTOR_SIZE"
      and "length (latent_vector u) = LATENT_VECTOR_SIZE"
  shows "doGradientUpdate NDEBUG m u r ss =
     (if \<not> NDEBUG \<and> \<not> isnormal (dot_loop (latent_vector m) (latent_vector u))
      then Inl AssertionFailed
      else Inr (m\<lparr>latent_vector :=
                map (\<lambda>i. latent_vector m ! i
                      + ss * ((real r - dot_loop (latent_vector m) (latent_vector u))
                                * latent_vector u ! i - LAMBDA * latent_vector m ! i))
                  [0..<LATENT_VECTOR_SIZE]\<rparr>,
                u\<lparr>latent_vector :=
                map (\<lambda>i. latent_vector u ! i
                      + ss * ((real r - dot_loop (latent_vector m) (latent_vector u))
                                * latent_vector m ! i - LAMBDA * latent_vector u ! i))
                  [0..<LATENT_VECTOR_SIZE]\<rparr>))"
  using assms
  by (simp add: doGradientUpdate_def vector_dot_def Let_def gradient_fold)

lemma scenario_dot:
  "dot_loop (latent_vector scenario_movie) (latent_vector scenario_user) = 0"
  by (simp add: dot_loop_def upt_latent scenario_movie_def scenario_user_def)

lemma scenario_lengths:
  "length (latent_vector scenario_movie) = LATENT_VECTOR_SIZE"
  "length (latent_vector scenario_user) = LATENT_VECTOR_SIZE"
  by (simp_all add: scenario_movie_def scenario_user_def LATENT_VECTOR_SIZE_def)

lemma isnormal_zero: "\<not> isnormal 0"
  by (simp add: isnormal_def DBL_MIN_def)

lemma scenario_release:
  "doGradientUpdate True scenario_movie scenario_user 3 0.001 =
     Inr (scenario_movie\<lparr>latent_vector :=
            [0.999999, 0.003, 0, 0, 0, 0, 0, 0, 0, 0, 0, 0, 0, 0, 0, 0, 0, 0, 0, 0]\<rparr>,
          scenario_user\<lparr>latent_vector :=
            [0.003, 0.999999, 0, 0, 0, 0, 0, 0, 0, 0, 0, 0, 0, 0, 0, 0, 0, 0, 0, 0]\<rparr>)"
  unfolding doGradientUpdate_eq [OF scenario_lengths] scenario_dot
  by (simp add: upt_latent scenario_movie_def scenario_user_def LAMBDA_def)

lemma scenario_debug:
  "doGradientUpdate False scenario_movie scenario_user 3 0.001 = Inl AssertionFailed"
  unfolding doGradientUpdate_eq [OF scenario_lengths] scenario_dot
  by (simp add: isnormal_zero)

subsection \<open>The kernel called on two nodes of the graph\<close>


lemma kernel_call_Inr:
  assumes "kernel_call NDEBUG ss movie user edge_rating g = Inr g'"
  obtains movie_data user_data where
    "doGradientUpdate NDEBUG (node_data g movie) (node_data g user) edge_rating ss
       = Inr (movie_data, user_data)"
    "g' = g\<lparr>node_data := (node_data g)(user := user_data, movie := movie_data)\<rparr>"
  using assms
  by (auto simp: kernel_call_def split: sum.splits)

lemma kernel_call_cursor:
  assumes "kernel_call NDEBUG ss movie user edge_rating g = Inr g'"
  shows "edge_offset (node_data g' n) = edge_offset (node_data g n)"
    and "updates (node_data g' n) = updates (node_data g n)"
    and "out_edges g' = out_edges g"
    and "num_nodes g' = num_nodes g"
  using assms
  by (auto elim!: kernel_call_Inr simp: doGradientUpdate_frame)

lemma kernel_call_other:
  assumes "kernel_call NDEBUG ss movie user edge_rating g = Inr g'"
      and "n \<noteq> movie" and "n \<noteq> user"
  shows "node_data g' n = node_data g n"
  using assms
  by (auto elim!: kernel_call_Inr)

lemma kernel_call_returns:
  "NDEBUG \<or> isnormal (dot_loop (latent_vector (node_data g movie))
                           (latent_vector (node_data g user))) \<Longrightarrow>
     \<exists>g'. kernel_call NDEBUG ss movie user edge_rating g = Inr g'"
  using doGradientUpdate_returns [of NDEBUG "node_data g movie" "node_data g user" edge_rating ss]
  by (auto simp: kernel_call_def)

lemma ones_dot: "dot_loop (latent_vector ones_node) (latent_vector ones_node) = 20"
  by (simp add: dot_loop_def upt_latent ones_node_def)

lemma isnormal_20: "isnormal 20"
  by (simp add: isnormal_def DBL_MIN_def DBL_MAX_def)

subsection \<open>C2: what one kernel call computes\<close>

text \<open>
  Against C2 as stated. The program has 20 components and \<open>LAMBDA = 0.001\<close>, neither of
  which a caller can change. On the scenario's nodes (rating 3, step size 0.001) the dot
  product is 0, which \<^verbatim>\<open>std::isnormal\<close> rejects: with assertions the kernel stops in
  \<^verbatim>\<open>vector_dot\<close>; without them the result is \<open>v_m = [0.999999, 0.003, 0, ...]\<close> and
  \<open>v_u = [0.003, 0.999999, 0, ...]\<close>, not \<open>[1, 0.003]\<close> and \<open>[0.003, 1]\<close>.
\<close>

theorem kernel_scenario_counterexample:
  "doGradientUpdate False scenario_movie scenario_user 3 0.001 = Inl AssertionFailed \<and>
   doGradientUpdate True scenario_movie scenario_user 3 0.001 =
     Inr (scenario_movie\<lparr>latent_vector :=
            [0.999999, 0.003, 0, 0, 0, 0, 0, 0, 0, 0, 0, 0, 0, 0, 0, 0, 0, 0, 0, 0]\<rparr>,
          scenario_user\<lparr>latent_vector :=
            [0.003, 0.999999, 0, 0, 0, 0, 0, 0, 0, 0, 0, 0, 0, 0, 0, 0, 0, 0, 0, 0]\<rparr>) \<and>
   doGradientUpdate True scenario_movie scenario_user 3 0.001 \<noteq>
     Inr (scenario_movie\<lparr>latent_vector :=
            [1, 0.003, 0, 0, 0, 0, 0, 0, 0, 0, 0, 0, 0, 0, 0, 0, 0, 0, 0, 0]\<rparr>,
          scenario_user\<lparr>latent_vector :=
            [0.003, 1, 0, 0, 0, 0, 0, 0, 0, 0, 0, 0, 0, 0, 0, 0, 0, 0, 0, 0]\<rparr>)"
  unfolding scenario_release scenario_debug
  by (simp add: scenario_movie_def)

text \<open>
  C2, amended. On two nodes with 20 components each, \<^verbatim>\<open>doGradientUpdate\<close> computes
  \<open>err = rating - dot (movie, user)\<close>; it stops at the assertion when assertions are
  compiled in and the dot product is not a normal number; otherwise it adds
  \<open>step_size * (err * u\<^sub>i - LAMBDA * m\<^sub>i)\<close> to every component \<open>i\<close> of the movie and
  \<open>step_size * (err * m\<^sub>i - LAMBDA * u\<^sub>i)\<close> to every component of the user, where \<open>m\<^sub>i\<close>
  and \<open>u\<^sub>i\<close> are the values before the call, and \<open>LAMBDA\<close> is 0.001. On the scenario's
  nodes with rating 3 and step size 0.001 the call stops at the assertion when assertions
  are compiled in, and otherwise gives \<open>v_m = [0.999999, 0.003, 0, ...]\<close> and
  \<open>v_u = [0.003, 0.999999, 0, ...]\<close>.
\<close>

theorem doGradientUpdate_formula:
  assumes "length (latent_vector m) = LATENT_VECTOR_SIZE"
      and "length (latent_vector u) = LATENT_VECTOR_SIZE"
  shows "LATENT_VECTOR_SIZE = 20 \<and> LAMBDA = 0.001 \<and>
    (let dot = (\<Sum>i<LATENT_VECTOR_SIZE. latent_vector u ! i * latent_vector m ! i);
         err = real rating - dot
     in doGradientUpdate NDEBUG m u rating ss =
          (if \<not> NDEBUG \<and> \<not> isnormal dot then Inl AssertionFailed
           else Inr (m\<lparr>latent_vector :=
                       map (\<lambda>i. latent_vector m ! i
                              + ss * (err * latent_vector u ! i - LAMBDA * latent_vector m ! i))
                         [0..<LATENT_VECTOR_SIZE]\<rparr>,
                     u\<lparr>latent_vector :=
                       map (\<lambda>i. latent_vector u ! i
                              + ss * (err * latent_vector m ! i - LAMBDA * latent_vector u ! i))
                         [0..<LATENT_VECTOR_SIZE]\<rparr>))) \<and>
    doGradientUpdate False scenario_movie scenario_user 3 0.001 = Inl AssertionFailed \<and>
    doGradientUpdate True scenario_movie scenario_user 3 0.001 =
      Inr (scenario_movie\<lparr>latent_vector :=
             [0.999999, 0.003, 0, 0, 0, 0, 0, 0, 0, 0, 0, 0, 0, 0, 0, 0, 0, 0, 0, 0]\<rparr>,
           scenario_user\<lparr>latent_vector :=
             [0.003, 0.999999, 0, 0, 0, 0, 0, 0, 0, 0, 0, 0, 0, 0, 0, 0, 0, 0, 0, 0]\<rparr>)"
proof -
  have "doGradientUpdate NDEBUG m u rating ss =
     (if \<not> NDEBUG \<and> \<not> isnormal (\<Sum>i<LATENT_VECTOR_SIZE. latent_vector u ! i * latent_vector m ! i)
      then Inl AssertionFailed
      else Inr (m\<lparr>latent_vector :=
                  map (\<lambda>i. latent_vector m ! i
                        + ss * ((real rating
                                   - (\<Sum>i<LATENT_VECTOR_SIZE. latent_vector u ! i * latent_vector m ! i))
                                  * latent_vector u ! i - LAMBDA * latent_vector m ! i))
                    [0..<LATENT_VECTOR_SIZE]\<rparr>,
                u\<lparr>latent_vector :=
                  map (\<lambda>i. latent_vector u ! i
                        + ss * ((real rating
                                   - (\<Sum>i<LATENT_VECTOR_SIZE. latent_vector u ! i * latent_vector m ! i))
                                  * latent_vector m ! i - LAMBDA * latent_vector u ! i))
                    [0..<LATENT_VECTOR_SIZE]\<rparr>))"
    using doGradientUpdate_eq [OF assms] by (simp only: dot_loop_sum)
  then show ?thesis
    unfolding Let_def scenario_release scenario_debug
    by (simp add: LATENT_VECTOR_SIZE_def LAMBDA_def)
qed

theorem doGradientUpdate_formula_witness:
  "length (latent_vector scenario_movie) = LATENT_VECTOR_SIZE \<and>
   length (latent_vector scenario_user) = LATENT_VECTOR_SIZE \<and>
   doGradientUpdate True scenario_movie scenario_user 3 0.001 =
     Inr (scenario_movie\<lparr>latent_vector :=
            [0.999999, 0.003, 0, 0, 0, 0, 0, 0, 0, 0, 0, 0, 0, 0, 0, 0, 0, 0, 0, 0]\<rparr>,
          scenario_user\<lparr>latent_vector :=
            [0.003, 0.999999, 0, 0, 0, 0, 0, 0, 0, 0, 0, 0, 0, 0, 0, 0, 0, 0, 0, 0]\<rparr>)"
proof -
  have s: "(\<Sum>i<LATENT_VECTOR_SIZE. latent_vector scenario_user ! i * latent_vector scenario_movie ! i) = 0"
    using scenario_dot by (simp add: dot_loop_sum)
  show ?thesis
    using doGradientUpdate_formula [OF scenario_lengths, of 3 True "0.001"]
    unfolding s Let_def
    by (simp add: scenario_lengths upt_latent scenario_movie_def scenario_user_def LAMBDA_def)
qed


subsection \<open>C9: a rating the vectors already predict\<close>

text \<open>
  Against C9 as stated. The rating 0 equals the dot product of the scenario's two
  vectors, and with assertions compiled in the call stops at the assertion of
  \<^verbatim>\<open>vector_dot\<close>: no component is multiplied by anything. Without assertions, with
  the rating 3 equal to the dot product and the step size 2000, the factor
  \<open>1 - step_size * LAMBDA\<close> is \<open>-1\<close>: the first component of the movie goes from 1
  to \<open>-1\<close>, and its absolute value, 1, is not the factor times the old absolute value.
\<close>

theorem fixed_point_counterexample:
  "real 0 = (\<Sum>i<LATENT_VECTOR_SIZE. latent_vector scenario_movie ! i * latent_vector scenario_user ! i) \<and>
   doGradientUpdate False scenario_movie scenario_user 0 0.001 = Inl AssertionFailed \<and>
   real 3 = (\<Sum>i<LATENT_VECTOR_SIZE. latent_vector rated_movie ! i * latent_vector ones_node ! i) \<and>
   (case doGradientUpdate True rated_movie ones_node 3 2000 of
      Inl e \<Rightarrow> False
    | Inr (m', u') \<Rightarrow>
        latent_vector rated_movie ! 0 = 1 \<and> latent_vector m' ! 0 = - 1 \<and>
        1 - 2000 * LAMBDA = - 1 \<and>
        \<bar>latent_vector m' ! 0\<bar> \<noteq> (1 - 2000 * LAMBDA) * \<bar>latent_vector rated_movie ! 0\<bar>)"
proof -
  have l: "length (latent_vector rated_movie) = LATENT_VECTOR_SIZE"
    "length (latent_vector ones_node) = LATENT_VECTOR_SIZE"
    by (simp_all add: rated_movie_def ones_node_def LATENT_VECTOR_SIZE_def)
  have d: "dot_loop (latent_vector rated_movie) (latent_vector ones_node) = 3"
    by (simp add: dot_loop_def upt_latent rated_movie_def ones_node_def)
  have a: "doGradientUpdate False scenario_movie scenario_user 0 0.001 = Inl AssertionFailed"
    unfolding doGradientUpdate_eq [OF scenario_lengths] scenario_dot
    by (simp add: isnormal_zero)
  have b: "case doGradientUpdate True rated_movie ones_node 3 2000 of
      Inl e \<Rightarrow> False
    | Inr (m', u') \<Rightarrow>
        latent_vector rated_movie ! 0 = 1 \<and> latent_vector m' ! 0 = - 1 \<and>
        1 - 2000 * LAMBDA = - 1 \<and>
        \<bar>latent_vector m' ! 0\<bar> \<noteq> (1 - 2000 * LAMBDA) * \<bar>latent_vector rated_movie ! 0\<bar>"
    unfolding doGradientUpdate_eq [OF l] d
    by (simp add: upt_latent rated_movie_def ones_node_def LAMBDA_def)
  show ?thesis
    unfolding dot_loop_dot [symmetric] scenario_dot d using a b by simp
qed

text \<open>
  C9, amended. The dot product is the sum of the products of the components. When the
  rating equals it: with assertions compiled in and the rating 0 the call stops at the
  assertion; in every other case (no assertions, or a rating that is not 0) the call
  returns and has multiplied every component of both vectors by
  \<open>1 - step_size * LAMBDA\<close>, and for a step size from 0 to \<open>1 / LAMBDA\<close> the absolute
  value of every component is multiplied by that factor and does not grow.
\<close>

theorem kernel_fixed_point:
  assumes "length (latent_vector m) = LATENT_VECTOR_SIZE"
      and "length (latent_vector u) = LATENT_VECTOR_SIZE"
      and "real rating = (\<Sum>i<LATENT_VECTOR_SIZE. latent_vector m ! i * latent_vector u ! i)"
      and "rating < UINT_MOD"
  shows "(\<not> NDEBUG \<and> rating = 0 \<longrightarrow>
            doGradientUpdate NDEBUG m u rating ss = Inl AssertionFailed) \<and>
         (NDEBUG \<or> 0 < rating \<longrightarrow>
           (\<exists>m' u'. doGradientUpdate NDEBUG m u rating ss = Inr (m', u') \<and>
              (\<forall>i<LATENT_VECTOR_SIZE.
                 latent_vector m' ! i = (1 - ss * LAMBDA) * latent_vector m ! i \<and>
                 latent_vector u' ! i = (1 - ss * LAMBDA) * latent_vector u ! i \<and>
                 (0 \<le> ss \<and> ss * LAMBDA \<le> 1 \<longrightarrow>
                    \<bar>latent_vector m' ! i\<bar> = (1 - ss * LAMBDA) * \<bar>latent_vector m ! i\<bar> \<and>
                    \<bar>latent_vector u' ! i\<bar> = (1 - ss * LAMBDA) * \<bar>latent_vector u ! i\<bar> \<and>
                    \<bar>latent_vector m' ! i\<bar> \<le> \<bar>latent_vector m ! i\<bar> \<and>
                    \<bar>latent_vector u' ! i\<bar> \<le> \<bar>latent_vector u ! i\<bar>))))"
proof (intro conjI impI)
  let ?dp = "dot_loop (latent_vector m) (latent_vector u)"
  have dp: "?dp = real rating"
    using assms(3) by (simp add: dot_loop_dot)
  {
    assume "\<not> NDEBUG \<and> rating = 0"
    then show "doGradientUpdate NDEBUG m u rating ss = Inl AssertionFailed"
      unfolding doGradientUpdate_eq [OF assms(1,2)] dp by (simp add: isnormal_zero)
  next
    assume r: "NDEBUG \<or> 0 < rating"
    have normal: "NDEBUG \<or> isnormal ?dp"
    proof (cases NDEBUG)
      case True
      then show ?thesis by simp
    next
      case False
      with r have "1 \<le> real rating" by simp
      moreover have "real rating \<le> 2 ^ 32"
        using assms(4) by (simp add: UINT_MOD_def)
      moreover have "(2::real) ^ 32 \<le> DBL_MAX" "DBL_MIN \<le> 1"
        by (simp_all add: DBL_MAX_def DBL_MIN_def)
      ultimately show ?thesis
        unfolding dp by (simp add: isnormal_def)
    qed
    define c where "c = 1 - ss * LAMBDA"
    define m' where "m' = m\<lparr>latent_vector := map (\<lambda>i. c * latent_vector m ! i) [0..<LATENT_VECTOR_SIZE]\<rparr>"
    define u' where "u' = u\<lparr>latent_vector := map (\<lambda>i. c * latent_vector u ! i) [0..<LATENT_VECTOR_SIZE]\<rparr>"
    have scale: "x + ss * ((real rating - ?dp) * y - LAMBDA * x) = c * x" for x y :: real
      unfolding dp by (simp add: c_def algebra_simps)
    from normal have k: "doGradientUpdate NDEBUG m u rating ss = Inr (m', u')"
      unfolding doGradientUpdate_eq [OF assms(1,2)] scale m'_def u'_def by auto
    have comp: "latent_vector m' ! i = c * latent_vector m ! i"
               "latent_vector u' ! i = c * latent_vector u ! i"
      if "i < LATENT_VECTOR_SIZE" for i
      using that by (simp_all add: m'_def u'_def)
    have abs_scale: "\<bar>c * x\<bar> = c * \<bar>x\<bar>" if "ss * LAMBDA \<le> 1" for x :: real
      using that by (simp add: c_def abs_mult)
    have shrink: "c * \<bar>x\<bar> \<le> \<bar>x\<bar>" if "0 \<le> ss" for x :: real
    proof -
      have "0 \<le> ss * LAMBDA" using that by (simp add: LAMBDA_def)
      then have "c * \<bar>x\<bar> \<le> 1 * \<bar>x\<bar>"
        unfolding c_def by (intro mult_right_mono) simp_all
      then show ?thesis by simp
    qed
    have "\<forall>i<LATENT_VECTOR_SIZE.
                latent_vector m' ! i = c * latent_vector m ! i \<and>
                latent_vector u' ! i = c * latent_vector u ! i \<and>
                (0 \<le> ss \<and> ss * LAMBDA \<le> 1 \<longrightarrow>
                   \<bar>latent_vector m' ! i\<bar> = c * \<bar>latent_vector m ! i\<bar> \<and>
                   \<bar>latent_vector u' ! i\<bar> = c * \<bar>latent_vector u ! i\<bar> \<and>
                   \<bar>latent_vector m' ! i\<bar> \<le> \<bar>latent_vector m ! i\<bar> \<and>
                   \<bar>latent_vector u' ! i\<bar> \<le> \<bar>latent_vector u ! i\<bar>)"
      by (simp add: comp abs_scale shrink)
    with k show "\<exists>m' u'. doGradientUpdate NDEBUG m u rating ss = Inr (m', u') \<and>
              (\<forall>i<LATENT_VECTOR_SIZE.
                 latent_vector m' ! i = (1 - ss * LAMBDA) * latent_vector m ! i \<and>
                 latent_vector u' ! i = (1 - ss * LAMBDA) * latent_vector u ! i \<and>
                 (0 \<le> ss \<and> ss * LAMBDA \<le> 1 \<longrightarrow>
                    \<bar>latent_vector m' ! i\<bar> = (1 - ss * LAMBDA) * \<bar>latent_vector m ! i\<bar> \<and>
                    \<bar>latent_vector u' ! i\<bar> = (1 - ss * LAMBDA) * \<bar>latent_vector u ! i\<bar> \<and>
                    \<bar>latent_vector m' ! i\<bar> \<le> \<bar>latent_vector m ! i\<bar> \<and>
                    \<bar>latent_vector u' ! i\<bar> \<le> \<bar>latent_vector u ! i\<bar>))"
      unfolding c_def by blast
  }
qed

theorem kernel_fixed_point_witness:
  "length (latent_vector rated_movie) = LATENT_VECTOR_SIZE \<and>
   length (latent_vector ones_node) = LATENT_VECTOR_SIZE \<and>
   real 3 = (\<Sum>i<LATENT_VECTOR_SIZE. latent_vector rated_movie ! i * latent_vector ones_node ! i) \<and>
   (3::nat) < UINT_MOD \<and> (0::nat) < 3 \<and>
   (\<exists>m' u'. doGradientUpdate False rated_movie ones_node 3 0.001 = Inr (m', u') \<and>
      latent_vector m' ! 0 = (1 - 0.001 * LAMBDA) * 1 \<and>
      latent_vector u' ! 0 = (1 - 0.001 * LAMBDA) * 1 \<and>
      latent_vector m' ! 3 = 0 \<and>
      \<bar>latent_vector m' ! 0\<bar> = 0.999999 \<and> \<bar>latent_vector u' ! 19\<bar> = 0.999999)"
proof -
  have l: "length (latent_vector rated_movie) = LATENT_VECTOR_SIZE"
    "length (latent_vector ones_node) = LATENT_VECTOR_SIZE"
    by (simp_all add: rated_movie_def ones_node_def LATENT_VECTOR_SIZE_def)
  have d: "real 3 = (\<Sum>i<LATENT_VECTOR_SIZE. latent_vector rated_movie ! i * latent_vector ones_node ! i)"
    unfolding dot_loop_dot [symmetric]
    by (simp add: dot_loop_def upt_latent rated_movie_def ones_node_def)
  have r: "(3::nat) < UINT_MOD"
    by (simp add: UINT_MOD_def)
  have z: "(0::nat) < LATENT_VECTOR_SIZE" "(3::nat) < LATENT_VECTOR_SIZE"
    "(19::nat) < LATENT_VECTOR_SIZE"
    by (simp_all add: LATENT_VECTOR_SIZE_def)
  have v: "latent_vector rated_movie ! 0 = 1" "latent_vector ones_node ! 0 = 1"
    "latent_vector rated_movie ! 3 = 0" "latent_vector ones_node ! 19 = 1"
    by (simp_all add: rated_movie_def ones_node_def)
  from kernel_fixed_point [OF l d r, of False "0.001"]
  obtain m' u' where
    k: "doGradientUpdate False rated_movie ones_node 3 0.001 = Inr (m', u')"
    and a: "\<forall>i<LATENT_VECTOR_SIZE.
              latent_vector m' ! i = (1 - 0.001 * LAMBDA) * latent_vector rated_movie ! i \<and>
              latent_vector u' ! i = (1 - 0.001 * LAMBDA) * latent_vector ones_node ! i \<and>
              (0 \<le> (0.001::real) \<and> 0.001 * LAMBDA \<le> 1 \<longrightarrow>
                 \<bar>latent_vector m' ! i\<bar> = (1 - 0.001 * LAMBDA) * \<bar>latent_vector rated_movie ! i\<bar> \<and>
                 \<bar>latent_vector u' ! i\<bar> = (1 - 0.001 * LAMBDA) * \<bar>latent_vector ones_node ! i\<bar> \<and>
                 \<bar>latent_vector m' ! i\<bar> \<le> \<bar>latent_vector rated_movie ! i\<bar> \<and>
                 \<bar>latent_vector u' ! i\<bar> \<le> \<bar>latent_vector ones_node ! i\<bar>)"
    by auto
  have s: "0 \<le> (0.001::real) \<and> 0.001 * LAMBDA \<le> 1"
    by (simp add: LAMBDA_def)
  from a [rule_format, OF z(1)] s
  have "latent_vector m' ! 0 = (1 - 0.001 * LAMBDA) * 1"
    "latent_vector u' ! 0 = (1 - 0.001 * LAMBDA) * 1"
    "\<bar>latent_vector m' ! 0\<bar> = 0.999999"
    by (simp_all add: v LAMBDA_def)
  moreover from a [rule_format, OF z(2)] have "latent_vector m' ! 3 = 0"
    by (simp add: v)
  moreover from a [rule_format, OF z(3)] s have "\<bar>latent_vector u' ! 19\<bar> = 0.999999"
    by (simp add: v LAMBDA_def)
  ultimately have "\<exists>m' u'. doGradientUpdate False rated_movie ones_node 3 0.001 = Inr (m', u') \<and>
      latent_vector m' ! 0 = (1 - 0.001 * LAMBDA) * 1 \<and>
      latent_vector u' ! 0 = (1 - 0.001 * LAMBDA) * 1 \<and>
      latent_vector m' ! 3 = 0 \<and>
      \<bar>latent_vector m' ! 0\<bar> = 0.999999 \<and> \<bar>latent_vector u' ! 19\<bar> = 0.999999"
    using k by blast
  with l d r show ?thesis
    by simp
qed

subsection \<open>C10: what one kernel call writes\<close>

text \<open>
  C10. A call of \<^verbatim>\<open>doGradientUpdate\<close> that returns leaves the update counter and the
  cursor of both of its nodes as they were; on the graph, the counter and the cursor of
  every node, the edges with their ratings, and the whole state of every node other than
  the two arguments are unchanged. Only the two latent vectors are written.
\<close>

theorem doGradientUpdate_writes_vectors_only:
  "(doGradientUpdate NDEBUG m u edge_rating ss = Inr (m', u') \<longrightarrow>
      updates m' = updates m \<and> edge_offset m' = edge_offset m \<and>
      updates u' = updates u \<and> edge_offset u' = edge_offset u) \<and>
   (kernel_call NDEBUG ss movie user edge_rating g = Inr g' \<longrightarrow>
      out_edges g' = out_edges g \<and> num_nodes g' = num_nodes g \<and>
      (\<forall>n. updates (node_data g' n) = updates (node_data g n) \<and>
           edge_offset (node_data g' n) = edge_offset (node_data g n)) \<and>
      (\<forall>n. n \<noteq> movie \<and> n \<noteq> user \<longrightarrow> node_data g' n = node_data g n))"
  by (auto simp: doGradientUpdate_frame kernel_call_cursor kernel_call_other)

theorem doGradientUpdate_writes_vectors_only_witness:
  "\<exists>g'. kernel_call False 0.001 0 1 3 graph_1x1 = Inr g' \<and>
      out_edges g' = out_edges graph_1x1 \<and>
      updates (node_data g' 0) = 0 \<and> edge_offset (node_data g' 0) = 0 \<and>
      updates (node_data g' 1) = 0 \<and> edge_offset (node_data g' 1) = 0 \<and>
      node_data g' 2 = ones_node"
proof -
  have "isnormal (dot_loop (latent_vector (node_data graph_1x1 0))
                    (latent_vector (node_data graph_1x1 1)))"
    by (simp add: graph_1x1_def ones_dot isnormal_20)
  then obtain g' where k: "kernel_call False 0.001 0 1 3 graph_1x1 = Inr g'"
    using kernel_call_returns by blast
  from doGradientUpdate_writes_vectors_only
         [where NDEBUG = False and ss = "0.001" and movie = 0 and user = 1
            and edge_rating = 3 and g = graph_1x1 and g' = g'] k
  have "out_edges g' = out_edges graph_1x1"
       "\<forall>n. updates (node_data g' n) = updates (node_data graph_1x1 n) \<and>
           edge_offset (node_data g' n) = edge_offset (node_data graph_1x1 n)"
       "\<forall>n. n \<noteq> 0 \<and> n \<noteq> 1 \<longrightarrow> node_data g' n = node_data graph_1x1 n"
    by blast+
  then have "out_edges g' = out_edges graph_1x1 \<and>
      updates (node_data g' 0) = 0 \<and> edge_offset (node_data g' 0) = 0 \<and>
      updates (node_data g' 1) = 0 \<and> edge_offset (node_data g' 1) = 0 \<and>
      node_data g' 2 = ones_node"
    by (simp add: graph_1x1_def ones_node_def)
  with k show ?thesis by blast
qed

subsection \<open>C5: the step sizes\<close>

text \<open>
  C5. Each step size is a function of the round alone and is its formula:
  Intel \<open>0.001 * 0.9 ^ r\<close>, Bottou \<open>0.1 / (1 + 0.1 * 0.001 * r)\<close>, and, for every round
  whose successor is below \<open>2 ^ 32\<close>, Purdue \<open>0.001 * 1.5 / (1 + 0.9 * (r + 1) powr 1.5)\<close>
  and Inv \<open>1 / (r + 1)\<close>. Intel is 0.001, 0.0009 and 0.00081 in the rounds 0, 1 and 2.
\<close>

theorem step_size_formulas:
  "step_size Intel r = 0.001 * 0.9 ^ r \<and>
   step_size Bottou r = 0.1 / (1 + 0.1 * 0.001 * real r) \<and>
   (r + 1 < 2 ^ 32 \<longrightarrow>
      step_size Purdue r = 0.001 * 1.5 / (1 + 0.9 * (real r + 1) powr 1.5) \<and>
      step_size Inv r = 1 / (real r + 1)) \<and>
   step_size Intel 0 = 0.001 \<and> step_size Intel 1 = 0.0009 \<and> step_size Intel 2 = 0.00081 \<and>
   \<bar>step_size Intel 0 - 0.001\<bar> < 1 / 10 ^ 12 \<and>
   \<bar>step_size Intel 1 - 0.0009\<bar> < 1 / 10 ^ 12 \<and>
   \<bar>step_size Intel 2 - 0.00081\<bar> < 1 / 10 ^ 12"
proof -
  have intel: "step_size Intel n = 0.001 * 0.9 ^ n" for n
    by (simp add: IntelLearnFN_def LEARNING_RATE_def DECAY_RATE_def)
  have bottou: "step_size Bottou r = 0.1 / (1 + 0.1 * 0.001 * real r)"
    by (simp add: BottouLearnFN_def BottouInit_def LAMBDA_def)
  have wrapped: "step_size Purdue r = 0.001 * 1.5 / (1 + 0.9 * (real r + 1) powr 1.5) \<and>
      step_size Inv r = 1 / (real r + 1)" if "r + 1 < 2 ^ 32"
  proof -
    from that have "(r + 1) mod UINT_MOD = r + 1"
      by (simp add: UINT_MOD_def)
    moreover have "real (r + 1) = real r + 1" by simp
    ultimately show ?thesis
      by (simp only: step_size.simps PurdueLearnFN_def InvLearnFN_def
            LEARNING_RATE_def DECAY_RATE_def) simp
  qed
  have at012: "step_size Intel 0 = 0.001" "step_size Intel 1 = 0.0009"
    "step_size Intel 2 = 0.00081"
    unfolding intel by (simp_all add: power2_eq_square)
  from intel [of r] bottou wrapped at012 show ?thesis
    by simp
qed

theorem step_size_formulas_witness:
  "(3::nat) + 1 < 2 ^ 32 \<and>
   step_size Purdue 3 = 0.001 * 1.5 / (1 + 0.9 * (real 3 + 1) powr 1.5) \<and>
   step_size Inv 3 = 1 / 4 \<and> step_size Intel 3 = 0.000729"
  using step_size_formulas [of 3] by (simp add: power3_eq_cube)

subsection \<open>Initialisation\<close>


lemma genRand_range:
  assumes "0 < RAND_MAX" and "r \<le> RAND_MAX"
  shows "- 1 \<le> genRand RAND_MAX r" and "genRand RAND_MAX r \<le> 1"
proof -
  have "0 \<le> real r / real RAND_MAX" "real r / real RAND_MAX \<le> 1"
    using assms by simp_all
  then show "- 1 \<le> genRand RAND_MAX r" and "genRand RAND_MAX r \<le> 1"
    by (simp_all add: genRand_def)
qed

lemma genRand_ends:
  assumes "0 < RAND_MAX"
  shows "genRand RAND_MAX 0 = - 1" and "genRand RAND_MAX RAND_MAX = 1"
  using assms by (simp_all add: genRand_def)

lemma init_fold:
  "foldl (init_node RAND_MAX rand) (g, 0, 0, 0, 0) [0..<k] = (g', c, x) \<Longrightarrow>
     c = k * LATENT_VECTOR_SIZE \<and> out_edges g' = out_edges g \<and> num_nodes g' = num_nodes g \<and>
     (\<forall>n. node_data g' n =
        (if n < k then (node_data g n)
           \<lparr>latent_vector := map (\<lambda>i. genRand RAND_MAX (rand (n * LATENT_VECTOR_SIZE + i)))
                               [0..<LATENT_VECTOR_SIZE],
            updates := 0, edge_offset := 0\<rparr>
         else node_data g n))"
proof (induction k arbitrary: g' c x)
  case 0
  then show ?case by simp
next
  case (Suc k)
  obtain g1 c1 x1 where f: "foldl (init_node RAND_MAX rand) (g, 0, 0, 0, 0) [0..<k] = (g1, c1, x1)"
    by (metis prod_cases3)
  note ih = Suc.IH [OF f]
  obtain a b d where x1: "x1 = (a, b, d)" by (metis prod_cases3)
  from Suc.prems f have "init_node RAND_MAX rand (g1, c1, x1) k = (g', c, x)"
    by simp
  then have g': "g' = g1\<lparr>node_data := (node_data g1)(k := (node_data g1 k)
           \<lparr>latent_vector := map (\<lambda>i. genRand RAND_MAX (rand (c1 + i))) [0..<LATENT_VECTOR_SIZE],
            updates := 0, edge_offset := 0\<rparr>)\<rparr>"
    and c: "c = c1 + LATENT_VECTOR_SIZE"
    by (auto simp: init_node_def x1 Let_def)
  from ih show ?case
    by (auto simp: g' c)
qed

lemma initializeGraphData_nodes:
  assumes "initializeGraphData RAND_MAX rand g = (g', numMovieNodes, numUserNodes)"
      and "n < num_nodes g"
  shows "updates (node_data g' n) = 0" and "edge_offset (node_data g' n) = 0"
    and "latent_vector (node_data g' n) =
           map (\<lambda>i. genRand RAND_MAX (rand (n * LATENT_VECTOR_SIZE + i))) [0..<LATENT_VECTOR_SIZE]"
proof -
  obtain c x where "foldl (init_node RAND_MAX rand) (g, 0, 0, 0, 0) [0..<num_nodes g] = (g', c, x)"
    using assms(1) by (auto simp: initializeGraphData_def split: prod.splits)
  from init_fold [OF this] assms(2)
  show "updates (node_data g' n) = 0" and "edge_offset (node_data g' n) = 0"
    and "latent_vector (node_data g' n) =
           map (\<lambda>i. genRand RAND_MAX (rand (n * LATENT_VECTOR_SIZE + i))) [0..<LATENT_VECTOR_SIZE]"
    by simp_all
qed

subsection \<open>C7: the range of the initial vectors\<close>

text \<open>
  C7 at the generator's least and greatest results. With the C library's
  \<open>RAND_MAX = 2147483647\<close>, \<^verbatim>\<open>genRand\<close> is exactly -1 when \<^verbatim>\<open>rand()\<close> returns 0 and
  exactly 1 when it returns \<open>RAND_MAX\<close>: the interval is closed. On the graph with one
  movie and one user, a generator that returns 0 gives a vector of -1, while the counter
  and the cursor of the node are 0.
\<close>

theorem genRand_reaches_the_ends:
  "genRand 2147483647 0 = - 1 \<and> genRand 2147483647 2147483647 = 1 \<and>
   (case initializeGraphData 2147483647 (\<lambda>k. 0) graph_1x1 of
      (g', numMovieNodes, numUserNodes) \<Rightarrow>
        latent_vector (node_data g' 0) ! 0 = - 1 \<and>
        updates (node_data g' 0) = 0 \<and> edge_offset (node_data g' 0) = 0 \<and>
        numMovieNodes = 1 \<and> numUserNodes = 1)"
proof -
  obtain g' nm nu where i: "initializeGraphData 2147483647 (\<lambda>k. 0) graph_1x1 = (g', nm, nu)"
    by (metis prod_cases3)
  have n: "(0::nat) < num_nodes graph_1x1" by (simp add: graph_1x1_def)
  have "nm = 1 \<and> nu = 1"
    using i by (simp add: initializeGraphData_def graph_1x1_def init_node_def Let_def
                  upt_rec UINT_MOD_def split: prod.splits)
  then show ?thesis
    using initializeGraphData_nodes [OF i n]
    by (simp add: i genRand_def LATENT_VECTOR_SIZE_def upt_rec)
qed




subsection \<open>Cursors and counters through the loops\<close>

lemma count_and_step_simps:
  "out_edges (count_and_step movie g) = out_edges g"
  "num_nodes (count_and_step movie g) = num_nodes g"
  "edge_offset (node_data (count_and_step movie g) n) =
     (if n = movie then (edge_offset (node_data g movie) + 1) mod UINT_MOD
      else edge_offset (node_data g n))"
  "updates (node_data (count_and_step movie g) n) =
     (if n = movie then (updates (node_data g movie) + 1) mod UINT_MOD
      else updates (node_data g n))"
  by (simp_all add: count_and_step_def)

lemma set_edge_offset_simps:
  "out_edges (set_edge_offset movie v g) = out_edges g"
  "num_nodes (set_edge_offset movie v g) = num_nodes g"
  "edge_offset (node_data (set_edge_offset movie v g) n) =
     (if n = movie then v else edge_offset (node_data g n))"
  "updates (node_data (set_edge_offset movie v g) n) = updates (node_data g n)"
  by (simp_all add: set_edge_offset_def)

lemma edge_loop_effect:
  assumes "edge_loop NDEBUG ss bound movie es (g, calls) = Inr (g', calls')"
      and "edge_offset (node_data g movie) + length es < UINT_MOD"
  shows "out_edges g' = out_edges g \<and> num_nodes g' = num_nodes g \<and>
     edge_offset (node_data g' movie) =
       edge_offset (node_data g movie) + length (takeWhile (\<lambda>e. fst e \<le> bound) es) \<and>
     updates (node_data g' movie) mod UINT_MOD =
       (updates (node_data g movie) + length (takeWhile (\<lambda>e. fst e \<le> bound) es)) mod UINT_MOD \<and>
     (\<forall>n. n \<noteq> movie \<longrightarrow> edge_offset (node_data g' n) = edge_offset (node_data g n) \<and>
                         updates (node_data g' n) = updates (node_data g n)) \<and>
     calls' = calls @ map (\<lambda>e. (movie, fst e)) (takeWhile (\<lambda>e. fst e \<le> bound) es)"
  using assms
proof (induction es arbitrary: g calls)
  case Nil
  then show ?case
    by (simp add: UINT_MOD_def)
next
  case (Cons e es)
  obtain user edge_rating where e: "e = (user, edge_rating)" by (cases e)
  show ?case
  proof (cases "user > bound")
    case True
    with Cons.prems e show ?thesis
      by (simp add: UINT_MOD_def)
  next
    case False
    with Cons.prems(1) e obtain g1 where
      k: "kernel_call NDEBUG ss movie user edge_rating g = Inr g1" and
      r: "edge_loop NDEBUG ss bound movie es (count_and_step movie g1, calls @ [(movie, user)])
            = Inr (g', calls')"
      by (auto split: sum.splits)
    let ?g2 = "count_and_step movie g1"
    have c1: "edge_offset (node_data g movie) + 1 < UINT_MOD"
      using Cons.prems(2) by simp
    have off: "edge_offset (node_data ?g2 movie) = edge_offset (node_data g movie) + 1"
      using c1 by (simp add: count_and_step_simps kernel_call_cursor [OF k])
    have "edge_offset (node_data ?g2 movie) + length es < UINT_MOD"
      using Cons.prems(2) off by simp
    note ih = Cons.IH [OF r this]
    have upd: "(Suc (updates (node_data g movie)) mod UINT_MOD + j) mod UINT_MOD
                 = Suc (updates (node_data g movie) + j) mod UINT_MOD" for j
    proof -
      have "(Suc (updates (node_data g movie)) mod UINT_MOD + j) mod UINT_MOD
              = (Suc (updates (node_data g movie)) + j) mod UINT_MOD"
        by (simp only: mod_add_left_eq)
      then show ?thesis by simp
    qed
    have wrap: "Suc (edge_offset (node_data g movie)) mod UINT_MOD
                  = Suc (edge_offset (node_data g movie))"
      using c1 by simp
    from ih False e show ?thesis
      by (simp add: count_and_step_simps kernel_call_cursor [OF k] upd wrap)
  qed
qed

lemma cursors_ok_reset:
  "cursors_ok g \<Longrightarrow> cursors_ok (set_edge_offset movie 0 g)"
  by (simp add: cursors_ok_def set_edge_offset_simps)

lemma movie_body_effect:
  assumes "movie_body NDEBUG ss bound reset movie (g, calls) = Inr (g', calls')"
      and "cursors_ok g"
  shows "out_edges g' = out_edges g \<and> num_nodes g' = num_nodes g \<and> cursors_ok g' \<and>
     (\<forall>n. n \<noteq> movie \<longrightarrow> edge_offset (node_data g' n) = edge_offset (node_data g n)) \<and>
     (if reset then edge_offset (node_data g' movie) = 0
      else edge_offset (node_data g movie) \<le> edge_offset (node_data g' movie))"
proof -
  let ?es = "drop (edge_offset (node_data g movie)) (out_edges g movie)"
  from assms(1) obtain g1 where
    l: "edge_loop NDEBUG ss bound movie ?es (g, calls) = Inr (g1, calls')" and
    g': "g' = (if reset then set_edge_offset movie 0 g1 else g1)"
    by (auto simp: movie_body_def split: sum.splits)
  have b: "edge_offset (node_data g movie) + length ?es < UINT_MOD"
    using assms(2) by (simp add: cursors_ok_def)
  note eff = edge_loop_effect [OF l b]
  have le: "length (takeWhile (\<lambda>e. fst e \<le> bound) ?es) \<le> length ?es"
    by (rule length_takeWhile_le)
  have c: "edge_offset (node_data g n) \<le> length (out_edges g n)"
    and d: "length (out_edges g n) < UINT_MOD" for n
    using assms(2) by (simp_all add: cursors_ok_def)
  have ok1: "cursors_ok g1"
    unfolding cursors_ok_def
  proof
    fix n
    show "edge_offset (node_data g1 n) \<le> length (out_edges g1 n) \<and>
          length (out_edges g1 n) < UINT_MOD"
    proof (cases "n = movie")
      case True
      have "edge_offset (node_data g1 movie) \<le> length (out_edges g movie)"
        using eff le c [of movie] by simp
      with True eff d [of movie] show ?thesis
        by simp
    next
      case False
      with eff c [of n] d [of n] show ?thesis
        by simp
    qed
  qed
  show ?thesis
  proof (cases reset)
    case True
    with g' eff cursors_ok_reset [OF ok1, of movie] show ?thesis
      by (simp add: set_edge_offset_simps)
  next
    case False
    with g' eff ok1 show ?thesis
      by simp
  qed
qed

lemma movies_loop_effect:
  assumes "movies_loop (movie_body NDEBUG ss bound reset) ms (g, calls) = Inr (g', calls')"
      and "cursors_ok g"
  shows "out_edges g' = out_edges g \<and> num_nodes g' = num_nodes g \<and> cursors_ok g' \<and>
     (\<forall>n. n \<notin> set ms \<longrightarrow> edge_offset (node_data g' n) = edge_offset (node_data g n)) \<and>
     (if reset then \<forall>n\<in>set ms. edge_offset (node_data g' n) = 0
      else \<forall>n. edge_offset (node_data g n) \<le> edge_offset (node_data g' n))"
  using assms
proof (induction ms arbitrary: g calls)
  case Nil
  then show ?case by simp
next
  case (Cons m ms)
  from Cons.prems(1) obtain g1 calls1 where
    b: "movie_body NDEBUG ss bound reset m (g, calls) = Inr (g1, calls1)" and
    r: "movies_loop (movie_body NDEBUG ss bound reset) ms (g1, calls1) = Inr (g', calls')"
    by (auto split: sum.splits)
  note e1 = movie_body_effect [OF b Cons.prems(2)]
  then have ok1: "cursors_ok g1" by simp
  note ih = Cons.IH [OF r ok1]
  show ?case
  proof (cases reset)
    case True
    have "edge_offset (node_data g' n) = 0" if "n \<in> set (m # ms)" for n
    proof (cases "n \<in> set ms")
      case True
      with ih \<open>reset\<close> show ?thesis by simp
    next
      case False
      with that have "n = m" by simp
      with False ih e1 \<open>reset\<close> show ?thesis by simp
    qed
    with True ih e1 show ?thesis
      by simp
  next
    case False
    have "edge_offset (node_data g n) \<le> edge_offset (node_data g' n)" for n
    proof -
      have "edge_offset (node_data g n) \<le> edge_offset (node_data g1 n)"
        using e1 False by (cases "n = m") simp_all
      also have "\<dots> \<le> edge_offset (node_data g' n)"
        using ih False by simp
      finally show ?thesis .
    qed
    with False ih e1 show ?thesis
      by simp
  qed
qed



lemma block_users_loop_stop:
  "\<not> cur < userRangeEnd workItem \<Longrightarrow>
     block_users_loop fuel NDEBUG M U ss workItem cur s = Inr s"
  by (cases fuel) simp_all

lemma block_users_loop_effect:
  assumes "block_users_loop fuel NDEBUG M U ss workItem cur (g, calls) = Inr (g', calls')"
      and "cursors_ok g"
      and "userRangeEnd workItem \<le> U"
  shows "out_edges g' = out_edges g \<and> num_nodes g' = num_nodes g \<and> cursors_ok g' \<and>
     (\<forall>n. n \<notin> set [movieRangeStart workItem..<movieRangeEnd workItem] \<longrightarrow>
          edge_offset (node_data g' n) = edge_offset (node_data g n)) \<and>
     (if userRangeEnd workItem = U \<and> cur < U
      then \<forall>n\<in>set [movieRangeStart workItem..<movieRangeEnd workItem].
             edge_offset (node_data g' n) = 0
      else \<forall>n. edge_offset (node_data g n) \<le> edge_offset (node_data g' n))"
  using assms(1,2)
proof (induction fuel arbitrary: cur g calls)
  case 0
  then show ?case
    using assms(3) by (auto split: if_splits)
next
  case (Suc fuel)
  show ?case
  proof (cases "cur < userRangeEnd workItem")
    case False
    with Suc.prems assms(3) show ?thesis
      by auto
  next
    case True
    define cur2 where "cur2 = next_slice_end workItem cur"
    let ?ms = "[movieRangeStart workItem..<movieRangeEnd workItem]"
    have le: "cur2 \<le> userRangeEnd workItem"
      by (simp add: cur2_def next_slice_end_def Let_def)
    from Suc.prems(1) True obtain g1 calls1 where
      m: "movies_loop (movie_body NDEBUG ss ((cur2 + M) mod UINT_MOD) (cur2 = U)) ?ms (g, calls)
            = Inr (g1, calls1)" and
      r: "block_users_loop fuel NDEBUG M U ss workItem cur2 (g1, calls1) = Inr (g', calls')"
      by (auto simp: Let_def cur2_def split: sum.splits)
    note e1 = movies_loop_effect [OF m Suc.prems(2)]
    then have ok1: "cursors_ok g1" by simp
    note ih = Suc.IH [OF r ok1]
    show ?thesis
    proof (cases "userRangeEnd workItem = U")
      case eq: True
      show ?thesis
      proof (cases "cur2 = U")
        case True
        with eq have "\<not> cur2 < userRangeEnd workItem" by simp
        from r block_users_loop_stop [OF this] have "g' = g1" by simp
        with e1 True eq \<open>cur < userRangeEnd workItem\<close> show ?thesis
          by simp
      next
        case False
        with le eq have "cur2 < U" by simp
        with ih e1 eq \<open>cur < userRangeEnd workItem\<close> show ?thesis
          by simp
      qed
    next
      case ne: False
      with assms(3) le have lt: "cur2 < U" "userRangeEnd workItem \<noteq> U" by simp_all
      have "edge_offset (node_data g n) \<le> edge_offset (node_data g' n)" for n
      proof -
        have "edge_offset (node_data g n) \<le> edge_offset (node_data g1 n)"
          using e1 lt by simp
        also have "\<dots> \<le> edge_offset (node_data g' n)"
          using ih lt by simp
        finally show ?thesis .
      qed
      with ih e1 ne show ?thesis
        by simp
    qed
  qed
qed

lemma cursors_ok_le:
  "cursors_ok g \<Longrightarrow> edge_offset (node_data g n) \<le> length (out_edges g n)"
  by (simp add: cursors_ok_def)

lemma ones_node_fields:
  "edge_offset ones_node = 0" "updates ones_node = 0"
  by (simp_all add: ones_node_def)

lemma block_users_loop_unfold:
  "block_users_loop fuel NDEBUG M U ss workItem cur s =
     (if cur < userRangeEnd workItem then
        if fuel = 0 then Inl Diverges
        else case movies_loop
                  (movie_body NDEBUG ss ((next_slice_end workItem cur + M) mod UINT_MOD)
                     (next_slice_end workItem cur = U))
                  [movieRangeStart workItem..<movieRangeEnd workItem] s of
             Inl e \<Rightarrow> Inl e
           | Inr s' \<Rightarrow>
               block_users_loop (fuel - 1) NDEBUG M U ss workItem
                 (next_slice_end workItem cur) s'
      else Inr s)"
  by (cases fuel) (simp_all add: Let_def split: sum.split)

lemma movie_bands_loop_stop:
  "\<not> cur < movieRangeEnd workItem \<Longrightarrow>
     movie_bands_loop fuel NDEBUG ss bound reset workItem cur s = Inr s"
  by (cases fuel) simp_all

lemma next_movie_slice_end_bounds:
  assumes "cur < movieRangeEnd workItem"
      and "movieRangeEnd workItem + moviesPerBlockSlice workItem < UINT_MOD"
  shows "cur \<le> next_movie_slice_end workItem cur"
    and "next_movie_slice_end workItem cur \<le> movieRangeEnd workItem"
    and "0 < moviesPerBlockSlice workItem \<Longrightarrow> cur < next_movie_slice_end workItem cur"
proof -
  have "(cur + moviesPerBlockSlice workItem) mod UINT_MOD = cur + moviesPerBlockSlice workItem"
    using assms by simp
  then show "cur \<le> next_movie_slice_end workItem cur"
    and "next_movie_slice_end workItem cur \<le> movieRangeEnd workItem"
    and "0 < moviesPerBlockSlice workItem \<Longrightarrow> cur < next_movie_slice_end workItem cur"
    using assms(1) by (simp_all add: next_movie_slice_end_def Let_def)
qed

lemma movie_bands_loop_effect:
  assumes "movie_bands_loop fuel NDEBUG ss bound reset workItem cur (g, calls) = Inr (g', calls')"
      and "cursors_ok g"
      and "movieRangeEnd workItem + moviesPerBlockSlice workItem < UINT_MOD"
  shows "out_edges g' = out_edges g \<and> num_nodes g' = num_nodes g \<and> cursors_ok g' \<and>
     (\<forall>n. n \<notin> set [cur..<movieRangeEnd workItem] \<longrightarrow>
          edge_offset (node_data g' n) = edge_offset (node_data g n)) \<and>
     (if reset then \<forall>n\<in>set [cur..<movieRangeEnd workItem]. edge_offset (node_data g' n) = 0
      else \<forall>n. edge_offset (node_data g n) \<le> edge_offset (node_data g' n))"
  using assms(1,2)
proof (induction fuel arbitrary: cur g calls)
  case 0
  then show ?case
    by (auto split: if_splits)
next
  case (Suc fuel)
  show ?case
  proof (cases "cur < movieRangeEnd workItem")
    case False
    with Suc.prems show ?thesis
      by auto
  next
    case True
    define cur2 where "cur2 = next_movie_slice_end workItem cur"
    note bnd = next_movie_slice_end_bounds(1,2) [OF True assms(3), folded cur2_def]
    from Suc.prems(1) True obtain g1 calls1 where
      m: "movies_loop (movie_body NDEBUG ss bound reset) [cur..<cur2] (g, calls)
            = Inr (g1, calls1)" and
      r: "movie_bands_loop fuel NDEBUG ss bound reset workItem cur2 (g1, calls1)
            = Inr (g', calls')"
      by (auto simp: Let_def cur2_def split: sum.splits)
    note e1 = movies_loop_effect [OF m Suc.prems(2)]
    then have ok1: "cursors_ok g1" by simp
    note ih = Suc.IH [OF r ok1]
    have out: "edge_offset (node_data g' n) = edge_offset (node_data g n)"
      if "n \<notin> set [cur..<movieRangeEnd workItem]" for n
    proof -
      from that bnd have "n \<notin> set [cur..<cur2]" "n \<notin> set [cur2..<movieRangeEnd workItem]"
        by auto
      with e1 ih show ?thesis by simp
    qed
    show ?thesis
    proof (cases reset)
      case True
      have "edge_offset (node_data g' n) = 0" if "n \<in> set [cur..<movieRangeEnd workItem]" for n
      proof (cases "n < cur2")
        case True
        with that have "n \<in> set [cur..<cur2]" "n \<notin> set [cur2..<movieRangeEnd workItem]"
          by auto
        with e1 ih \<open>reset\<close> show ?thesis by simp
      next
        case False
        with that have "n \<in> set [cur2..<movieRangeEnd workItem]" by auto
        with ih \<open>reset\<close> show ?thesis by simp
      qed
      with True ih e1 out show ?thesis
        by simp
    next
      case False
      have "edge_offset (node_data g n) \<le> edge_offset (node_data g' n)" for n
      proof -
        have "edge_offset (node_data g n) \<le> edge_offset (node_data g1 n)"
          using e1 False by simp
        also have "\<dots> \<le> edge_offset (node_data g' n)"
          using ih False by simp
        finally show ?thesis .
      qed
      with False ih e1 out show ?thesis
        by simp
    qed
  qed
qed

lemma block_users_movies_loop_stop:
  "\<not> cur < userRangeEnd workItem \<Longrightarrow>
     block_users_movies_loop fuel NDEBUG M U ss workItem cur s = Inr s"
  by (cases fuel) simp_all

lemma block_users_movies_loop_effect:
  assumes "block_users_movies_loop fuel NDEBUG M U ss workItem cur (g, calls) = Inr (g', calls')"
      and "cursors_ok g"
      and "userRangeEnd workItem \<le> U"
      and "movieRangeEnd workItem + moviesPerBlockSlice workItem < UINT_MOD"
  shows "out_edges g' = out_edges g \<and> num_nodes g' = num_nodes g \<and> cursors_ok g' \<and>
     (\<forall>n. n \<notin> set [movieRangeStart workItem..<movieRangeEnd workItem] \<longrightarrow>
          edge_offset (node_data g' n) = edge_offset (node_data g n)) \<and>
     (if userRangeEnd workItem = U \<and> cur < U
      then \<forall>n\<in>set [movieRangeStart workItem..<movieRangeEnd workItem].
             edge_offset (node_data g' n) = 0
      else \<forall>n. edge_offset (node_data g n) \<le> edge_offset (node_data g' n))"
  using assms(1,2)
proof (induction fuel arbitrary: cur g calls)
  case 0
  then show ?case
    using assms(3) by (auto split: if_splits)
next
  case (Suc fuel)
  show ?case
  proof (cases "cur < userRangeEnd workItem")
    case False
    with Suc.prems assms(3) show ?thesis
      by auto
  next
    case True
    define cur2 where "cur2 = next_slice_end workItem cur"
    have le: "cur2 \<le> userRangeEnd workItem"
      by (simp add: cur2_def next_slice_end_def Let_def)
    from Suc.prems(1) True obtain g1 calls1 where
      m: "movie_bands_loop UINT_MOD NDEBUG ss ((cur2 + M) mod UINT_MOD) (cur2 = U) workItem
            (movieRangeStart workItem) (g, calls) = Inr (g1, calls1)" and
      r: "block_users_movies_loop fuel NDEBUG M U ss workItem cur2 (g1, calls1)
            = Inr (g', calls')"
      by (auto simp: Let_def cur2_def split: sum.splits)
    note e1 = movie_bands_loop_effect [OF m Suc.prems(2) assms(4)]
    then have ok1: "cursors_ok g1" by simp
    note ih = Suc.IH [OF r ok1]
    show ?thesis
    proof (cases "userRangeEnd workItem = U")
      case eq: True
      show ?thesis
      proof (cases "cur2 = U")
        case True
        with eq have "\<not> cur2 < userRangeEnd workItem" by simp
        from r block_users_movies_loop_stop [OF this] have "g' = g1" by simp
        with e1 True eq \<open>cur < userRangeEnd workItem\<close> show ?thesis
          by simp
      next
        case False
        with le eq have "cur2 < U" by simp
        with ih e1 eq \<open>cur < userRangeEnd workItem\<close> show ?thesis
          by simp
      qed
    next
      case ne: False
      with assms(3) le have lt: "cur2 < U" "userRangeEnd workItem \<noteq> U" by simp_all
      have "edge_offset (node_data g n) \<le> edge_offset (node_data g' n)" for n
      proof -
        have "edge_offset (node_data g n) \<le> edge_offset (node_data g1 n)"
          using e1 lt by simp
        also have "\<dots> \<le> edge_offset (node_data g' n)"
          using ih lt by simp
        finally show ?thesis .
      qed
      with ih e1 ne show ?thesis
        by simp
    qed
  qed
qed

lemma movie_bands_loop_unfold:
  "movie_bands_loop fuel NDEBUG ss bound reset workItem cur s =
     (if cur < movieRangeEnd workItem then
        if fuel = 0 then Inl Diverges
        else case movies_loop (movie_body NDEBUG ss bound reset)
                  [cur..<next_movie_slice_end workItem cur] s of
             Inl e \<Rightarrow> Inl e
           | Inr s' \<Rightarrow>
               movie_bands_loop (fuel - 1) NDEBUG ss bound reset workItem
                 (next_movie_slice_end workItem cur) s'
      else Inr s)"
  by (cases fuel) (simp_all add: Let_def split: sum.split)

lemma block_users_movies_loop_unfold:
  "block_users_movies_loop fuel NDEBUG M U ss workItem cur s =
     (if cur < userRangeEnd workItem then
        if fuel = 0 then Inl Diverges
        else case movie_bands_loop UINT_MOD NDEBUG ss
                  ((next_slice_end workItem cur + M) mod UINT_MOD)
                  (next_slice_end workItem cur = U) workItem (movieRangeStart workItem) s of
             Inl e \<Rightarrow> Inl e
           | Inr s' \<Rightarrow>
               block_users_movies_loop (fuel - 1) NDEBUG M U ss workItem
                 (next_slice_end workItem cur) s'
      else Inr s)"
  by (cases fuel) (simp_all add: Let_def split: sum.split)

lemma isnormal_numeral:
  "isnormal x \<longleftrightarrow> 1 / 2 ^ 1022 \<le> \<bar>x\<bar> \<and> \<bar>x\<bar> \<le> 2 ^ 1024 - 2 ^ 971"
  by (simp add: isnormal_def DBL_MIN_def DBL_MAX_def)

lemma ones_length: "length (latent_vector ones_node) = LATENT_VECTOR_SIZE"
  by (simp add: ones_node_def LATENT_VECTOR_SIZE_def)



subsection \<open>Without assertions every loop returns\<close>

lemma edge_loop_returns:
  "\<exists>s'. edge_loop True ss bound movie es s = Inr s'"
proof (induction es arbitrary: s)
  case Nil
  then show ?case by (cases s) simp
next
  case (Cons e es)
  obtain g calls where s: "s = (g, calls)" by (cases s)
  obtain user edge_rating where e: "e = (user, edge_rating)" by (cases e)
  obtain g1 where "kernel_call True ss movie user edge_rating g = Inr g1"
    using kernel_call_returns [of True] by blast
  with Cons.IH [of "(count_and_step movie g1, calls @ [(movie, user)])"] show ?case
    by (simp add: s e)
qed

lemma movie_body_returns:
  "\<exists>s'. movie_body True ss bound reset movie s = Inr s'"
proof -
  obtain g calls where s: "s = (g, calls)" by (cases s)
  obtain s1 where "edge_loop True ss bound movie
      (drop (edge_offset (node_data g movie)) (out_edges g movie)) (g, calls) = Inr s1"
    using edge_loop_returns by blast
  then show ?thesis
    by (cases s1) (simp add: movie_body_def s)
qed

lemma movies_loop_returns:
  assumes "\<And>movie s. \<exists>s'. body movie s = Inr s'"
  shows "\<exists>s'. movies_loop body ms s = Inr s'"
proof (induction ms arbitrary: s)
  case Nil
  then show ?case by simp
next
  case (Cons m ms)
  obtain s1 where "body m s = Inr s1" using assms by blast
  with Cons.IH [of s1] show ?case by simp
qed

lemma sgd_block_returns:
  "\<exists>s'. sgd_block True M U ss workItem s = Inr s'"
  unfolding sgd_block_def
  by (rule movies_loop_returns) (rule movie_body_returns)

lemma block_users_loop_returns:
  assumes "0 < usersPerBlockSlice workItem"
      and "userRangeEnd workItem + usersPerBlockSlice workItem < UINT_MOD"
      and "userRangeEnd workItem - cur \<le> fuel"
  shows "\<exists>s'. block_users_loop fuel True M U ss workItem cur s = Inr s'"
  using assms(3)
proof (induction fuel arbitrary: cur s)
  case 0
  then show ?case by simp
next
  case (Suc fuel)
  show ?case
  proof (cases "cur < userRangeEnd workItem")
    case False
    then show ?thesis by simp
  next
    case True
    let ?c = "next_slice_end workItem cur"
    have "(cur + usersPerBlockSlice workItem) mod UINT_MOD = cur + usersPerBlockSlice workItem"
      using True assms(2) by simp
    then have "cur < ?c"
      using True assms(1) by (simp add: next_slice_end_def Let_def)
    with Suc.prems have f: "userRangeEnd workItem - ?c \<le> fuel" by simp
    obtain s1 where "movies_loop (movie_body True ss ((?c + M) mod UINT_MOD) (?c = U))
        [movieRangeStart workItem..<movieRangeEnd workItem] s = Inr s1"
      using movies_loop_returns [of "movie_body True ss ((?c + M) mod UINT_MOD) (?c = U)"]
        movie_body_returns by blast
    with Suc.IH [OF f, of s1] True show ?thesis
      by (simp add: Let_def)
  qed
qed

lemma sgd_block_users_returns:
  assumes "0 < usersPerBlockSlice workItem"
      and "userRangeEnd workItem + usersPerBlockSlice workItem < UINT_MOD"
  shows "\<exists>s'. sgd_block_users True M U ss workItem s = Inr s'"
  unfolding sgd_block_users_def
  using assms by (intro block_users_loop_returns) simp_all

lemma movie_bands_loop_returns:
  assumes "0 < moviesPerBlockSlice workItem"
      and "movieRangeEnd workItem + moviesPerBlockSlice workItem < UINT_MOD"
      and "movieRangeEnd workItem - cur \<le> fuel"
  shows "\<exists>s'. movie_bands_loop fuel True ss bound reset workItem cur s = Inr s'"
  using assms(3)
proof (induction fuel arbitrary: cur s)
  case 0
  then show ?case by simp
next
  case (Suc fuel)
  show ?case
  proof (cases "cur < movieRangeEnd workItem")
    case False
    then show ?thesis by simp
  next
    case True
    let ?c = "next_movie_slice_end workItem cur"
    from next_movie_slice_end_bounds(3) [OF True assms(2,1)] Suc.prems
    have f: "movieRangeEnd workItem - ?c \<le> fuel" by simp
    obtain s1 where "movies_loop (movie_body True ss bound reset) [cur..<?c] s = Inr s1"
      using movies_loop_returns [of "movie_body True ss bound reset"]
        movie_body_returns by blast
    with Suc.IH [OF f, of s1] True show ?thesis
      by (simp add: Let_def)
  qed
qed

lemma block_users_movies_loop_returns:
  assumes "0 < usersPerBlockSlice workItem"
      and "userRangeEnd workItem + usersPerBlockSlice workItem < UINT_MOD"
      and "0 < moviesPerBlockSlice workItem"
      and "movieRangeEnd workItem + moviesPerBlockSlice workItem < UINT_MOD"
      and "userRangeEnd workItem - cur \<le> fuel"
  shows "\<exists>s'. block_users_movies_loop fuel True M U ss workItem cur s = Inr s'"
  using assms(5)
proof (induction fuel arbitrary: cur s)
  case 0
  then show ?case by simp
next
  case (Suc fuel)
  show ?case
  proof (cases "cur < userRangeEnd workItem")
    case False
    then show ?thesis by simp
  next
    case True
    let ?c = "next_slice_end workItem cur"
    have "(cur + usersPerBlockSlice workItem) mod UINT_MOD = cur + usersPerBlockSlice workItem"
      using True assms(2) by simp
    then have "cur < ?c"
      using True assms(1) by (simp add: next_slice_end_def Let_def)
    with Suc.prems have f: "userRangeEnd workItem - ?c \<le> fuel" by simp
    have "movieRangeEnd workItem - movieRangeStart workItem \<le> UINT_MOD"
      using assms(4) by simp
    from movie_bands_loop_returns [OF assms(3,4) this]
    obtain s1 where "movie_bands_loop UINT_MOD True ss ((?c + M) mod UINT_MOD) (?c = U)
        workItem (movieRangeStart workItem) s = Inr s1"
      by blast
    with Suc.IH [OF f, of s1] True show ?thesis
      by (simp add: Let_def)
  qed
qed

lemma sgd_block_users_movies_returns:
  assumes "0 < usersPerBlockSlice workItem"
      and "userRangeEnd workItem + usersPerBlockSlice workItem < UINT_MOD"
      and "0 < moviesPerBlockSlice workItem"
      and "movieRangeEnd workItem + moviesPerBlockSlice workItem < UINT_MOD"
  shows "\<exists>s'. sgd_block_users_movies True M U ss workItem s = Inr s'"
  unfolding sgd_block_users_movies_def
  using assms by (intro block_users_movies_loop_returns) simp_all

subsection \<open>Evaluating a run on an example\<close>

lemmas grid_eval =
  block_start_def block_work_items_def advance_edge_iterators_def
  advance_movie_def userIdToUserNode_def UINT_MOD_def block_round_def
  block_substep_def move_right_def sgd_block_users_def sgd_block_def movie_body_def
  block_work_item_def userRangeStartPoints_def userRangeEndPoints_def
  set_edge_offset_def ones_node_fields upt_rec
  block_users_loop_unfold next_slice_end_def Let_def
  sgd_block_users_movies_def block_users_movies_loop_unfold movie_bands_loop_unfold
  next_movie_slice_end_def

lemmas kernel_eval =
  kernel_call_def count_and_step_def doGradientUpdate_eq ones_length
  dot_loop_def upt_latent ones_node_def LATENT_VECTOR_SIZE_def isnormal_numeral LAMBDA_def

subsection \<open>C1: every edge once in every round\<close>

text \<open>
  C1 on the spec's 2\<times>2 graph with two workers, in round 0. With \<^verbatim>\<open>sgd_block\<close> the
  kernel is applied to no edge at all: no movie is updated, though each has two edges.
  With \<^verbatim>\<open>sgd_block_users\<close> and with \<^verbatim>\<open>sgd_block_users_movies\<close> it is applied to the
  two edges of movie 1 and to neither edge of movie 0. The claim has all four edges
  processed in the round.
\<close>

theorem round_zero_misses_edges:
  "\<forall>NDEBUG.
     (\<forall>ss. case block_round (sgd_block NDEBUG 2 2 ss) 2 2
                 (block_start 2 2 2 2048 512 graph_2x2) of
        Inl e \<Rightarrow> False
      | Inr (workItems, g, calls) \<Rightarrow>
          calls = [] \<and> updates (node_data g 0) = 0 \<and> updates (node_data g 1) = 0 \<and>
          length (out_edges g 0) = 2 \<and> length (out_edges g 1) = 2) \<and>
     (case block_round (sgd_block_users NDEBUG 2 2 0.001) 2 2
             (block_start 2 2 2 2048 512 graph_2x2) of
        Inl e \<Rightarrow> False
      | Inr (workItems, g, calls) \<Rightarrow>
          calls = [(1, 2), (1, 3)] \<and> updates (node_data g 0) = 0 \<and>
          updates (node_data g 1) = 2) \<and>
     (case block_round (sgd_block_users_movies NDEBUG 2 2 0.001) 2 2
             (block_start 2 2 2 2048 512 graph_2x2) of
        Inl e \<Rightarrow> False
      | Inr (workItems, g, calls) \<Rightarrow>
          calls = [(1, 2), (1, 3)] \<and> updates (node_data g 0) = 0 \<and>
          updates (node_data g 1) = 2)"
  by (simp add: grid_eval graph_2x2_def kernel_eval)



subsection \<open>The cursor advancer\<close>


lemma advance_edges_eq:
  "off + length es < UINT_MOD \<Longrightarrow>
     advance_edges bound es off = off + length (takeWhile (\<lambda>e. fst e \<le> bound) es)"
proof (induction es arbitrary: off)
  case Nil
  then show ?case by simp
next
  case (Cons e es)
  obtain user edge_rating where e: "e = (user, edge_rating)" by (cases e)
  from Cons.prems have w: "(off + 1) mod UINT_MOD = off + 1" by simp
  from Cons.prems have "(off + 1) + length es < UINT_MOD" by simp
  from Cons.IH [OF this] show ?case
    by (simp add: e w del: One_nat_def)
qed

lemma advance_movie_cursor:
  assumes "cursors_ok g"
  shows "out_edges (advance_movie bound g movie) = out_edges g"
    and "cursors_ok (advance_movie bound g movie)"
    and "edge_offset (node_data (advance_movie bound g movie) n) =
           (if n = movie
            then edge_offset (node_data g n)
                 + length (takeWhile (\<lambda>e. fst e \<le> bound)
                            (drop (edge_offset (node_data g n)) (out_edges g n)))
            else edge_offset (node_data g n))"
proof -
  let ?es = "drop (edge_offset (node_data g movie)) (out_edges g movie)"
  have c: "edge_offset (node_data g k) \<le> length (out_edges g k)"
    and d: "length (out_edges g k) < UINT_MOD" for k
    using assms by (simp_all add: cursors_ok_def)
  have "edge_offset (node_data g movie) + length ?es < UINT_MOD"
    using c [of movie] d [of movie] by simp
  note a = advance_edges_eq [OF this, of bound]
  show "out_edges (advance_movie bound g movie) = out_edges g"
    by (simp add: advance_movie_def set_edge_offset_simps)
  show "edge_offset (node_data (advance_movie bound g movie) n) =
           (if n = movie
            then edge_offset (node_data g n)
                 + length (takeWhile (\<lambda>e. fst e \<le> bound)
                            (drop (edge_offset (node_data g n)) (out_edges g n)))
            else edge_offset (node_data g n))"
    by (simp add: advance_movie_def set_edge_offset_simps a)
  have "length (takeWhile (\<lambda>e. fst e \<le> bound) ?es) \<le> length ?es"
    by (rule length_takeWhile_le)
  then have "edge_offset (node_data g movie) + length (takeWhile (\<lambda>e. fst e \<le> bound) ?es)
               \<le> length (out_edges g movie)"
    using c [of movie] by simp
  then show "cursors_ok (advance_movie bound g movie)"
    using c d by (simp add: cursors_ok_def advance_movie_def set_edge_offset_simps a)
qed

lemma advance_fold_cursor:
  assumes "cursors_ok g" and "distinct ms"
  shows "out_edges (foldl (advance_movie bound) g ms) = out_edges g \<and>
         cursors_ok (foldl (advance_movie bound) g ms) \<and>
         (\<forall>n. edge_offset (node_data (foldl (advance_movie bound) g ms) n) =
           (if n \<in> set ms
            then edge_offset (node_data g n)
                 + length (takeWhile (\<lambda>e. fst e \<le> bound)
                            (drop (edge_offset (node_data g n)) (out_edges g n)))
            else edge_offset (node_data g n)))"
  using assms
proof (induction ms arbitrary: g)
  case Nil
  then show ?case by simp
next
  case (Cons m ms)
  note a = advance_movie_cursor [OF Cons.prems(1), of bound m]
  from Cons.prems(2) have dm: "distinct ms" and nm: "m \<notin> set ms" by simp_all
  from Cons.IH [OF a(2) dm] nm show ?case
    by (auto simp: a)
qed

text \<open>
  What the advancer does: for every movie of the work item's row the cursor moves over
  exactly the leading edges, from the cursor on, whose destination is at most
  \<open>userRangeStart + NUM_MOVIE_NODES + 1\<close>; no other cursor moves.
\<close>

lemma advance_edge_iterators_cursor:
  assumes "cursors_ok g"
      and "userRangeStart workItem + M + 1 < UINT_MOD"
  shows "edge_offset (node_data (advance_edge_iterators M g workItem) n) =
           (if n \<in> set [movieRangeStart workItem..<movieRangeEnd workItem]
            then edge_offset (node_data g n)
                 + length (takeWhile (\<lambda>e. fst e \<le> userRangeStart workItem + M + 1)
                            (drop (edge_offset (node_data g n)) (out_edges g n)))
            else edge_offset (node_data g n))"
proof -
  have "userIdToUserNode M (userRangeStart workItem) = userRangeStart workItem + M + 1"
    using assms(2) by (simp add: userIdToUserNode_def)
  with advance_fold_cursor [OF assms(1) distinct_upt] show ?thesis
    by (simp add: advance_edge_iterators_def)
qed

subsection \<open>One call of a grid kernel\<close>

text \<open>
  One call of a grid kernel (one worker, one sub-step), with every cursor at most the
  out-degree and the column's end at most \<open>U\<close>: the cursor of a movie outside the
  worker's row does not change; the cursor of a movie of the row is 0 after the call when
  the worker's column ends at \<open>U\<close> (and, for the two sliced kernels, starts below \<open>U\<close>),
  and otherwise it does not decrease and stays at most the out-degree.
\<close>

lemma grid_kernel_one_call:
  assumes "cursors_ok g"
      and "userRangeEnd workItem \<le> U"
  shows "(sgd_block NDEBUG M U ss workItem (g, calls) = Inr (g', calls') \<longrightarrow>
      (\<forall>n. n \<notin> set [movieRangeStart workItem..<movieRangeEnd workItem] \<longrightarrow>
           edge_offset (node_data g' n) = edge_offset (node_data g n)) \<and>
      (\<forall>n\<in>set [movieRangeStart workItem..<movieRangeEnd workItem].
           if userRangeEnd workItem = U then edge_offset (node_data g' n) = 0
           else edge_offset (node_data g n) \<le> edge_offset (node_data g' n) \<and>
                edge_offset (node_data g' n) \<le> length (out_edges g n))) \<and>
    (sgd_block_users NDEBUG M U ss workItem (g, calls) = Inr (g', calls') \<longrightarrow>
      (\<forall>n. n \<notin> set [movieRangeStart workItem..<movieRangeEnd workItem] \<longrightarrow>
           edge_offset (node_data g' n) = edge_offset (node_data g n)) \<and>
      (\<forall>n\<in>set [movieRangeStart workItem..<movieRangeEnd workItem].
           if userRangeEnd workItem = U \<and> userRangeStart workItem < U
           then edge_offset (node_data g' n) = 0
           else edge_offset (node_data g n) \<le> edge_offset (node_data g' n) \<and>
                edge_offset (node_data g' n) \<le> length (out_edges g n))) \<and>
    (movieRangeEnd workItem + moviesPerBlockSlice workItem < UINT_MOD \<and>
     sgd_block_users_movies NDEBUG M U ss workItem (g, calls) = Inr (g', calls') \<longrightarrow>
      (\<forall>n. n \<notin> set [movieRangeStart workItem..<movieRangeEnd workItem] \<longrightarrow>
           edge_offset (node_data g' n) = edge_offset (node_data g n)) \<and>
      (\<forall>n\<in>set [movieRangeStart workItem..<movieRangeEnd workItem].
           if userRangeEnd workItem = U \<and> userRangeStart workItem < U
           then edge_offset (node_data g' n) = 0
           else edge_offset (node_data g n) \<le> edge_offset (node_data g' n) \<and>
                edge_offset (node_data g' n) \<le> length (out_edges g n)))"
proof (intro conjI impI)
  assume b: "sgd_block NDEBUG M U ss workItem (g, calls) = Inr (g', calls')"
  note e = movies_loop_effect [OF b [unfolded sgd_block_def] assms(1)]
  from e show "\<forall>n. n \<notin> set [movieRangeStart workItem..<movieRangeEnd workItem] \<longrightarrow>
           edge_offset (node_data g' n) = edge_offset (node_data g n)"
    by simp
  from e cursors_ok_le [of g']
  show "\<forall>n\<in>set [movieRangeStart workItem..<movieRangeEnd workItem].
           if userRangeEnd workItem = U then edge_offset (node_data g' n) = 0
           else edge_offset (node_data g n) \<le> edge_offset (node_data g' n) \<and>
                edge_offset (node_data g' n) \<le> length (out_edges g n)"
    by (auto split: if_splits)
next
  assume b: "sgd_block_users NDEBUG M U ss workItem (g, calls) = Inr (g', calls')"
  note e = block_users_loop_effect [OF b [unfolded sgd_block_users_def] assms]
  from e show "\<forall>n. n \<notin> set [movieRangeStart workItem..<movieRangeEnd workItem] \<longrightarrow>
           edge_offset (node_data g' n) = edge_offset (node_data g n)"
    by simp
  from e cursors_ok_le [of g']
  show "\<forall>n\<in>set [movieRangeStart workItem..<movieRangeEnd workItem].
           if userRangeEnd workItem = U \<and> userRangeStart workItem < U
           then edge_offset (node_data g' n) = 0
           else edge_offset (node_data g n) \<le> edge_offset (node_data g' n) \<and>
                edge_offset (node_data g' n) \<le> length (out_edges g n)"
    by (auto split: if_splits)
next
  assume "movieRangeEnd workItem + moviesPerBlockSlice workItem < UINT_MOD \<and>
     sgd_block_users_movies NDEBUG M U ss workItem (g, calls) = Inr (g', calls')"
  then have w: "movieRangeEnd workItem + moviesPerBlockSlice workItem < UINT_MOD"
    and b: "sgd_block_users_movies NDEBUG M U ss workItem (g, calls) = Inr (g', calls')"
    by simp_all
  note e = block_users_movies_loop_effect [OF b [unfolded sgd_block_users_movies_def] assms w]
  from e show "\<forall>n. n \<notin> set [movieRangeStart workItem..<movieRangeEnd workItem] \<longrightarrow>
           edge_offset (node_data g' n) = edge_offset (node_data g n)"
    by simp
  from e cursors_ok_le [of g']
  show "\<forall>n\<in>set [movieRangeStart workItem..<movieRangeEnd workItem].
           if userRangeEnd workItem = U \<and> userRangeStart workItem < U
           then edge_offset (node_data g' n) = 0
           else edge_offset (node_data g n) \<le> edge_offset (node_data g' n) \<and>
                edge_offset (node_data g' n) \<le> length (out_edges g n)"
    by (auto split: if_splits)
qed

subsection \<open>The columns and the rows of the grid\<close>

lemma block_substeps_snoc:
  "block_substeps blockFn W U (js @ [j]) ws =
     (case block_substeps blockFn W U js ws of
        Inl e \<Rightarrow> Inl e
      | Inr ws' \<Rightarrow> block_substep blockFn W U j ws')"
  by (induction js arbitrary: ws) (auto split: sum.splits)

lemma block_rounds_snoc:
  "block_rounds blockFn lf W U (rs @ [r]) ws =
     (case block_rounds blockFn lf W U rs ws of
        Inl e \<Rightarrow> Inl e
      | Inr ws' \<Rightarrow> block_round (blockFn (lf r)) W U ws')"
  by (induction rs arbitrary: ws) (auto split: sum.splits)

lemma work_item_on_fields:
  "userRangeStart (work_item_on W M U ups mps c k) = userRangeStartPoints W U c"
  "userRangeEnd (work_item_on W M U ups mps c k) = userRangeEndPoints W U c"
  "movieRangeStart (work_item_on W M U ups mps c k) = movieRangeStart (block_work_item W M U ups mps k)"
  "movieRangeEnd (work_item_on W M U ups mps c k) = movieRangeEnd (block_work_item W M U ups mps k)"
  "usersPerBlockSlice (work_item_on W M U ups mps c k) = ups"
  "moviesPerBlockSlice (work_item_on W M U ups mps c k) = mps"
  by (simp_all add: work_item_on_def block_work_item_def)

lemma block_work_items_on:
  "block_work_items W M U ups mps = map (\<lambda>k. work_item_on W M U ups mps ((0 + k) mod W) k) [0..<W]"
  by (simp add: block_work_items_def work_item_on_def block_work_item_def)

lemma move_right_on:
  "move_right W U j (map (\<lambda>k. work_item_on W M U ups mps ((j + k) mod W) k) [0..<W]) =
     map (\<lambda>k. work_item_on W M U ups mps ((Suc j + k) mod W) k) [0..<W]"
  by (simp add: move_right_def work_item_on_def)

lemma end_points_le:
  fixes W U c :: nat
  assumes "c < W"
  shows "userRangeEndPoints W U c \<le> U"
proof (cases "c = W - 1")
  case True
  then show ?thesis by (simp add: userRangeEndPoints_def)
next
  case False
  with assms have "c + 1 \<le> W" by simp
  then have "(c + 1) * (U div W) \<le> W * (U div W)" by (rule mult_le_mono1)
  also have "\<dots> \<le> U" by simp
  finally show ?thesis using False by (simp add: userRangeEndPoints_def)
qed

lemma end_points_last:
  fixes W U c :: nat
  assumes "c < W" and "0 < U"
  shows "userRangeEndPoints W U c = U \<longleftrightarrow> c = W - 1"
proof (cases "c = W - 1")
  case True
  then show ?thesis by (simp add: userRangeEndPoints_def)
next
  case False
  with assms have "c + 1 \<le> W - 1" by simp
  then have "(c + 1) * (U div W) \<le> (W - 1) * (U div W)" by (rule mult_le_mono1)
  also have "\<dots> = W * (U div W) - U div W" by (simp add: diff_mult_distrib)
  also have "\<dots> < U"
  proof (cases "U div W = 0")
    case True
    with assms show ?thesis by simp
  next
    case False
    define a where "a = W * (U div W)"
    have "a \<le> U" by (simp add: a_def)
    with False \<open>0 < U\<close> have "a - U div W < U" by arith
    then show ?thesis by (simp add: a_def)
  qed
  finally show ?thesis using False by (simp add: userRangeEndPoints_def)
qed

lemma start_points_last:
  fixes W U :: nat
  assumes "0 < W" and "0 < U"
  shows "userRangeStartPoints W U (W - 1) < U"
proof -
  have "(U div W) * (W - 1) = W * (U div W) - U div W"
    by (simp add: diff_mult_distrib2 mult.commute)
  also have "\<dots> < U"
  proof (cases "U div W = 0")
    case True
    with assms show ?thesis by simp
  next
    case False
    define a where "a = W * (U div W)"
    have "a \<le> U" by (simp add: a_def)
    with False \<open>0 < U\<close> have "a - U div W < U" by arith
    then show ?thesis by (simp add: a_def)
  qed
  finally show ?thesis by (simp add: userRangeStartPoints_def)
qed

lemma movie_range_end_le:
  fixes W M k :: nat
  assumes "k < W"
  shows "movieRangeEnd (block_work_item W M U ups mps k) \<le> M"
proof (cases "k = W - 1")
  case True
  then show ?thesis by (simp add: block_work_item_def)
next
  case False
  with assms have "k + 1 \<le> W" by simp
  then have "(k + 1) * (M div W) \<le> W * (M div W)" by (rule mult_le_mono1)
  also have "\<dots> \<le> M" by simp
  finally show ?thesis using False by (simp add: block_work_item_def mult.commute)
qed

lemma rows_disjoint:
  fixes W M i j :: nat
  assumes "i < j" and "j < W"
  shows "set [movieRangeStart (block_work_item W M U ups mps i)..<
              movieRangeEnd (block_work_item W M U ups mps i)] \<inter>
         set [movieRangeStart (block_work_item W M U ups mps j)..<
              movieRangeEnd (block_work_item W M U ups mps j)] = {}"
proof -
  from assms have ne: "i \<noteq> W - 1" by simp
  from assms have "i + 1 \<le> j" by simp
  then have "(M div W) * (i + 1) \<le> (M div W) * j" by (rule mult_le_mono2)
  then have "movieRangeEnd (block_work_item W M U ups mps i)
               \<le> movieRangeStart (block_work_item W M U ups mps j)"
    using ne by (simp add: block_work_item_def)
  then show ?thesis by auto
qed

lemma rows_cover:
  fixes W M n :: nat
  assumes "0 < W" and "n < M"
  shows "\<exists>k<W. n \<in> set [movieRangeStart (block_work_item W M U ups mps k)..<
                         movieRangeEnd (block_work_item W M U ups mps k)]"
proof (cases "(M div W) * (W - 1) \<le> n")
  case True
  with assms have "W - 1 < W \<and> n \<in> set [movieRangeStart (block_work_item W M U ups mps (W - 1))..<
                         movieRangeEnd (block_work_item W M U ups mps (W - 1))]"
    by (simp add: block_work_item_def)
  then show ?thesis by blast
next
  case False
  then have lt: "n < (M div W) * (W - 1)" by simp
  then have pos: "0 < M div W" by (cases "M div W = 0") simp_all
  define k where "k = n div (M div W)"
  have "k < W - 1"
    unfolding k_def using lt pos by (simp add: div_less_iff_less_mult mult.commute)
  moreover have "(M div W) * k \<le> n"
    unfolding k_def by simp
  moreover have "n < (M div W) * k + M div W"
    unfolding k_def using pos
    by (metis dividend_less_times_div mult.commute add.commute)
  ultimately have "k < W \<and> n \<in> set [movieRangeStart (block_work_item W M U ups mps k)..<
                         movieRangeEnd (block_work_item W M U ups mps k)]"
    by (simp add: block_work_item_def)
  then show ?thesis by blast
qed

lemma do_all_cursor:
  assumes kernel: "\<And>w g calls g' calls'. w \<in> set wis \<Longrightarrow>
        blockFn w (g, calls) = Inr (g', calls') \<Longrightarrow> cursors_ok g \<Longrightarrow>
        out_edges g' = out_edges g \<and> cursors_ok g' \<and>
        (\<forall>n. n \<notin> set [movieRangeStart w..<movieRangeEnd w] \<longrightarrow>
             edge_offset (node_data g' n) = edge_offset (node_data g n)) \<and>
        (if userRangeEnd w = U
         then \<forall>n\<in>set [movieRangeStart w..<movieRangeEnd w]. edge_offset (node_data g' n) = 0
         else \<forall>n. edge_offset (node_data g n) \<le> edge_offset (node_data g' n))"
    and run: "do_all blockFn wis (g, calls) = Inr (g', calls')"
    and ok: "cursors_ok g"
    and disj: "\<And>i j. i < j \<Longrightarrow> j < length wis \<Longrightarrow>
        set [movieRangeStart (wis ! i)..<movieRangeEnd (wis ! i)] \<inter>
        set [movieRangeStart (wis ! j)..<movieRangeEnd (wis ! j)] = {}"
  shows "out_edges g' = out_edges g \<and> cursors_ok g' \<and>
     (\<forall>k<length wis. \<forall>n\<in>set [movieRangeStart (wis ! k)..<movieRangeEnd (wis ! k)].
        if userRangeEnd (wis ! k) = U then edge_offset (node_data g' n) = 0
        else edge_offset (node_data g n) \<le> edge_offset (node_data g' n)) \<and>
     (\<forall>n. (\<forall>k<length wis. n \<notin> set [movieRangeStart (wis ! k)..<movieRangeEnd (wis ! k)]) \<longrightarrow>
        edge_offset (node_data g' n) = edge_offset (node_data g n))"
  using assms
proof (induction wis arbitrary: g calls)
  case Nil
  then show ?case by simp
next
  case (Cons w ws)
  from Cons.prems(2) obtain g1 calls1 where
    h: "blockFn w (g, calls) = Inr (g1, calls1)" and
    t: "do_all blockFn ws (g1, calls1) = Inr (g', calls')"
    by (auto split: sum.splits)
  have e1: "out_edges g1 = out_edges g \<and> cursors_ok g1 \<and>
        (\<forall>n. n \<notin> set [movieRangeStart w..<movieRangeEnd w] \<longrightarrow>
             edge_offset (node_data g1 n) = edge_offset (node_data g n)) \<and>
        (if userRangeEnd w = U
         then \<forall>n\<in>set [movieRangeStart w..<movieRangeEnd w]. edge_offset (node_data g1 n) = 0
         else \<forall>n. edge_offset (node_data g n) \<le> edge_offset (node_data g1 n))"
    by (rule Cons.prems(1) [OF _ h Cons.prems(3)]) simp
  then have ok1: "cursors_ok g1" by simp
  have d: "set [movieRangeStart (ws ! i)..<movieRangeEnd (ws ! i)] \<inter>
        set [movieRangeStart (ws ! j)..<movieRangeEnd (ws ! j)] = {}"
    if "i < j" "j < length ws" for i j
    using Cons.prems(4) [of "Suc i" "Suc j"] that by simp
  have d0: "set [movieRangeStart w..<movieRangeEnd w] \<inter>
        set [movieRangeStart (ws ! j)..<movieRangeEnd (ws ! j)] = {}"
    if "j < length ws" for j
    using Cons.prems(4) [of 0 "Suc j"] that by simp
  have ih: "out_edges g' = out_edges g1 \<and> cursors_ok g' \<and>
     (\<forall>k<length ws. \<forall>n\<in>set [movieRangeStart (ws ! k)..<movieRangeEnd (ws ! k)].
        if userRangeEnd (ws ! k) = U then edge_offset (node_data g' n) = 0
        else edge_offset (node_data g1 n) \<le> edge_offset (node_data g' n)) \<and>
     (\<forall>n. (\<forall>k<length ws. n \<notin> set [movieRangeStart (ws ! k)..<movieRangeEnd (ws ! k)]) \<longrightarrow>
        edge_offset (node_data g' n) = edge_offset (node_data g1 n))"
    by (rule Cons.IH [OF _ t ok1 d]) (rule Cons.prems(1), simp_all)
  have row: "if userRangeEnd ((w # ws) ! k) = U then edge_offset (node_data g' n) = 0
        else edge_offset (node_data g n) \<le> edge_offset (node_data g' n)"
    if k: "k < length (w # ws)"
      and n: "n \<in> set [movieRangeStart ((w # ws) ! k)..<movieRangeEnd ((w # ws) ! k)]" for k n
  proof (cases k)
    case 0
    with n have nw: "n \<in> set [movieRangeStart w..<movieRangeEnd w]" by simp
    have "\<forall>j<length ws. n \<notin> set [movieRangeStart (ws ! j)..<movieRangeEnd (ws ! j)]"
      using d0 nw by blast
    with ih have "edge_offset (node_data g' n) = edge_offset (node_data g1 n)" by blast
    with e1 nw 0 show ?thesis by (auto split: if_splits)
  next
    case (Suc k')
    with k n have k': "k' < length ws"
      and nk: "n \<in> set [movieRangeStart (ws ! k')..<movieRangeEnd (ws ! k')]" by simp_all
    from d0 [OF k'] nk have "n \<notin> set [movieRangeStart w..<movieRangeEnd w]" by blast
    with e1 have "edge_offset (node_data g1 n) = edge_offset (node_data g n)" by blast
    moreover from ih k' nk
    have "if userRangeEnd (ws ! k') = U then edge_offset (node_data g' n) = 0
        else edge_offset (node_data g1 n) \<le> edge_offset (node_data g' n)" by blast
    ultimately show ?thesis using Suc by (auto split: if_splits)
  qed
  have out: "edge_offset (node_data g' n) = edge_offset (node_data g n)"
    if "\<forall>k<length (w # ws). n \<notin> set [movieRangeStart ((w # ws) ! k)..<movieRangeEnd ((w # ws) ! k)]"
    for n
  proof -
    from that [rule_format, of 0] have "n \<notin> set [movieRangeStart w..<movieRangeEnd w]" by simp
    with e1 have a: "edge_offset (node_data g1 n) = edge_offset (node_data g n)" by blast
    have "\<forall>k<length ws. n \<notin> set [movieRangeStart (ws ! k)..<movieRangeEnd (ws ! k)]"
    proof (intro allI impI)
      fix k assume "k < length ws"
      with that [rule_format, of "Suc k"]
      show "n \<notin> set [movieRangeStart (ws ! k)..<movieRangeEnd (ws ! k)]" by simp
    qed
    with ih have "edge_offset (node_data g' n) = edge_offset (node_data g1 n)" by blast
    with a show ?thesis by simp
  qed
  from e1 ih have "out_edges g' = out_edges g" "cursors_ok g'" by simp_all
  with row out show ?case by blast
qed

subsection \<open>The cursors over a sub-step, a round and a run\<close>

lemma grid_kernel_effect:
  fixes W M U ups mps c k :: nat
  assumes kern: "blockFn = sgd_block NDEBUG M U ss \<or> blockFn = sgd_block_users NDEBUG M U ss \<or>
       (blockFn = sgd_block_users_movies NDEBUG M U ss \<and> M + mps < UINT_MOD)"
    and c: "c < W" and k: "k < W" and U: "0 < U"
    and run: "blockFn (work_item_on W M U ups mps c k) (g, calls) = Inr (g', calls')"
    and ok: "cursors_ok g"
  shows "out_edges g' = out_edges g \<and> cursors_ok g' \<and>
        (\<forall>n. n \<notin> set [movieRangeStart (work_item_on W M U ups mps c k)..<
                         movieRangeEnd (work_item_on W M U ups mps c k)] \<longrightarrow>
             edge_offset (node_data g' n) = edge_offset (node_data g n)) \<and>
        (if userRangeEnd (work_item_on W M U ups mps c k) = U
         then \<forall>n\<in>set [movieRangeStart (work_item_on W M U ups mps c k)..<
                        movieRangeEnd (work_item_on W M U ups mps c k)].
                edge_offset (node_data g' n) = 0
         else \<forall>n. edge_offset (node_data g n) \<le> edge_offset (node_data g' n))"
proof -
  let ?w = "work_item_on W M U ups mps c k"
  have le: "userRangeEnd ?w \<le> U"
    by (simp add: work_item_on_fields end_points_le [OF c])
  have st: "userRangeStart ?w < U" if "userRangeEnd ?w = U"
  proof -
    from that have "c = W - 1"
      by (simp add: work_item_on_fields end_points_last [OF c U])
    moreover from c have "0 < W" by simp
    ultimately show ?thesis
      using start_points_last [of W U] U by (simp add: work_item_on_fields)
  qed
  from kern consider
    (block) "blockFn = sgd_block NDEBUG M U ss" |
    (users) "blockFn = sgd_block_users NDEBUG M U ss" |
    (both) "blockFn = sgd_block_users_movies NDEBUG M U ss" "M + mps < UINT_MOD"
    by blast
  then show ?thesis
  proof cases
    case block
    with run have "movies_loop
        (movie_body NDEBUG ss (userRangeEnd ?w) (userRangeEnd ?w = U))
        [movieRangeStart ?w..<movieRangeEnd ?w] (g, calls) = Inr (g', calls')"
      by (simp add: sgd_block_def)
    from movies_loop_effect [OF this ok] show ?thesis
      by (auto split: if_splits)
  next
    case users
    with run have "block_users_loop UINT_MOD NDEBUG M U ss ?w (userRangeStart ?w) (g, calls)
        = Inr (g', calls')"
      by (simp add: sgd_block_users_def)
    from block_users_loop_effect [OF this ok le] st show ?thesis
      by (auto split: if_splits)
  next
    case both
    with run have r: "block_users_movies_loop UINT_MOD NDEBUG M U ss ?w (userRangeStart ?w)
        (g, calls) = Inr (g', calls')"
      by (simp add: sgd_block_users_movies_def)
    have "movieRangeEnd ?w + moviesPerBlockSlice ?w < UINT_MOD"
      using movie_range_end_le [OF k, of M U ups mps] both(2)
      by (simp add: work_item_on_fields)
    from block_users_movies_loop_effect [OF r ok le this] st show ?thesis
      by (auto split: if_splits)
  qed
qed

lemma block_substep_cursor:
  fixes W M U ups mps j :: nat
  assumes kern: "blockFn = sgd_block NDEBUG M U ss \<or> blockFn = sgd_block_users NDEBUG M U ss \<or>
       (blockFn = sgd_block_users_movies NDEBUG M U ss \<and> M + mps < UINT_MOD)"
    and W: "0 < W" and U: "0 < U"
    and run: "block_substep blockFn W U j
        (map (\<lambda>k. work_item_on W M U ups mps ((j + k) mod W) k) [0..<W], (g, calls))
        = Inr (wis', (g', calls'))"
    and ok: "cursors_ok g"
  shows "wis' = map (\<lambda>k. work_item_on W M U ups mps ((Suc j + k) mod W) k) [0..<W] \<and>
     out_edges g' = out_edges g \<and> cursors_ok g' \<and>
     (\<forall>k<W. \<forall>n\<in>set [movieRangeStart (block_work_item W M U ups mps k)..<
                       movieRangeEnd (block_work_item W M U ups mps k)].
        if (j + k) mod W = W - 1 then edge_offset (node_data g' n) = 0
        else edge_offset (node_data g n) \<le> edge_offset (node_data g' n)) \<and>
     (\<forall>n. (\<forall>k<W. n \<notin> set [movieRangeStart (block_work_item W M U ups mps k)..<
                             movieRangeEnd (block_work_item W M U ups mps k)]) \<longrightarrow>
        edge_offset (node_data g' n) = edge_offset (node_data g n))"
proof -
  define wis where "wis = map (\<lambda>k. work_item_on W M U ups mps ((j + k) mod W) k) [0..<W]"
  have len: "length wis = W" by (simp add: wis_def)
  have nth: "wis ! k = work_item_on W M U ups mps ((j + k) mod W) k" if "k < W" for k
    using that by (simp add: wis_def)
  from run have d: "do_all blockFn wis (g, calls) = Inr (g', calls')"
    and w': "wis' = move_right W U j wis"
    by (auto simp: block_substep_def wis_def split: sum.splits)
  have kernel: "out_edges g2 = out_edges g1 \<and> cursors_ok g2 \<and>
        (\<forall>n. n \<notin> set [movieRangeStart w..<movieRangeEnd w] \<longrightarrow>
             edge_offset (node_data g2 n) = edge_offset (node_data g1 n)) \<and>
        (if userRangeEnd w = U
         then \<forall>n\<in>set [movieRangeStart w..<movieRangeEnd w]. edge_offset (node_data g2 n) = 0
         else \<forall>n. edge_offset (node_data g1 n) \<le> edge_offset (node_data g2 n))"
    if "w \<in> set wis" "blockFn w (g1, calls1) = Inr (g2, calls2)" "cursors_ok g1"
    for w g1 calls1 g2 calls2
  proof -
    from that(1) obtain k where k: "k < W" and w: "w = work_item_on W M U ups mps ((j + k) mod W) k"
      by (auto simp: wis_def)
    from W have "(j + k) mod W < W" by simp
    from grid_kernel_effect [OF kern this k U that(2) [unfolded w] that(3)] show ?thesis
      unfolding w .
  qed
  have disj: "set [movieRangeStart (wis ! i)..<movieRangeEnd (wis ! i)] \<inter>
        set [movieRangeStart (wis ! k)..<movieRangeEnd (wis ! k)] = {}"
    if "i < k" "k < length wis" for i k
  proof -
    from that len have "i < W" "k < W" by simp_all
    with rows_disjoint [OF that(1), of W M U ups mps] show ?thesis
      by (simp add: nth work_item_on_fields)
  qed
  have e: "out_edges g' = out_edges g \<and> cursors_ok g' \<and>
     (\<forall>k<length wis. \<forall>n\<in>set [movieRangeStart (wis ! k)..<movieRangeEnd (wis ! k)].
        if userRangeEnd (wis ! k) = U then edge_offset (node_data g' n) = 0
        else edge_offset (node_data g n) \<le> edge_offset (node_data g' n)) \<and>
     (\<forall>n. (\<forall>k<length wis. n \<notin> set [movieRangeStart (wis ! k)..<movieRangeEnd (wis ! k)]) \<longrightarrow>
        edge_offset (node_data g' n) = edge_offset (node_data g n))"
  proof (rule do_all_cursor)
    show "do_all blockFn wis (g, calls) = Inr (g', calls')" by (rule d)
    show "cursors_ok g" by (rule ok)
  next
    fix w g1 calls1 g2 calls2
    assume "w \<in> set wis" "blockFn w (g1, calls1) = Inr (g2, calls2)" "cursors_ok g1"
    then show "out_edges g2 = out_edges g1 \<and> cursors_ok g2 \<and>
        (\<forall>n. n \<notin> set [movieRangeStart w..<movieRangeEnd w] \<longrightarrow>
             edge_offset (node_data g2 n) = edge_offset (node_data g1 n)) \<and>
        (if userRangeEnd w = U
         then \<forall>n\<in>set [movieRangeStart w..<movieRangeEnd w]. edge_offset (node_data g2 n) = 0
         else \<forall>n. edge_offset (node_data g1 n) \<le> edge_offset (node_data g2 n))"
      by (rule kernel)
  next
    fix i k
    assume "i < k" "k < length wis"
    then show "set [movieRangeStart (wis ! i)..<movieRangeEnd (wis ! i)] \<inter>
        set [movieRangeStart (wis ! k)..<movieRangeEnd (wis ! k)] = {}"
      by (rule disj)
  qed
  have col: "(userRangeEnd (wis ! k) = U) = ((j + k) mod W = W - 1)" if "k < W" for k
  proof -
    from W have "(j + k) mod W < W" by simp
    from end_points_last [OF this U] that show ?thesis
      by (simp add: nth work_item_on_fields)
  qed
  have rows: "movieRangeStart (wis ! k) = movieRangeStart (block_work_item W M U ups mps k)"
    "movieRangeEnd (wis ! k) = movieRangeEnd (block_work_item W M U ups mps k)"
    if "k < W" for k
    using that by (simp_all add: nth work_item_on_fields)
  from e have "out_edges g' = out_edges g" "cursors_ok g'" by simp_all
  moreover have "\<forall>k<W. \<forall>n\<in>set [movieRangeStart (block_work_item W M U ups mps k)..<
                       movieRangeEnd (block_work_item W M U ups mps k)].
        if (j + k) mod W = W - 1 then edge_offset (node_data g' n) = 0
        else edge_offset (node_data g n) \<le> edge_offset (node_data g' n)"
  proof (intro allI impI ballI)
    fix k n
    assume k: "k < W"
      and n: "n \<in> set [movieRangeStart (block_work_item W M U ups mps k)..<
                       movieRangeEnd (block_work_item W M U ups mps k)]"
    from e k len have "\<forall>n\<in>set [movieRangeStart (wis ! k)..<movieRangeEnd (wis ! k)].
        if userRangeEnd (wis ! k) = U then edge_offset (node_data g' n) = 0
        else edge_offset (node_data g n) \<le> edge_offset (node_data g' n)"
      by blast
    with n show "if (j + k) mod W = W - 1 then edge_offset (node_data g' n) = 0
        else edge_offset (node_data g n) \<le> edge_offset (node_data g' n)"
      unfolding rows [OF k] col [OF k] by blast
  qed
  moreover have "\<forall>n. (\<forall>k<W. n \<notin> set [movieRangeStart (block_work_item W M U ups mps k)..<
                             movieRangeEnd (block_work_item W M U ups mps k)]) \<longrightarrow>
        edge_offset (node_data g' n) = edge_offset (node_data g n)"
  proof (intro allI impI)
    fix n
    assume a: "\<forall>k<W. n \<notin> set [movieRangeStart (block_work_item W M U ups mps k)..<
                             movieRangeEnd (block_work_item W M U ups mps k)]"
    have "\<forall>k<length wis. n \<notin> set [movieRangeStart (wis ! k)..<movieRangeEnd (wis ! k)]"
    proof (intro allI impI)
      fix k assume "k < length wis"
      with len have k: "k < W" by simp
      with a show "n \<notin> set [movieRangeStart (wis ! k)..<movieRangeEnd (wis ! k)]"
        unfolding rows [OF k] by blast
    qed
    with e show "edge_offset (node_data g' n) = edge_offset (node_data g n)" by blast
  qed
  moreover have "wis' = map (\<lambda>k. work_item_on W M U ups mps ((Suc j + k) mod W) k) [0..<W]"
    unfolding w' wis_def by (rule move_right_on)
  ultimately show ?thesis by blast
qed

lemma block_substeps_state:
  fixes W M U ups mps j :: nat
  assumes kern: "blockFn = sgd_block NDEBUG M U ss \<or> blockFn = sgd_block_users NDEBUG M U ss \<or>
       (blockFn = sgd_block_users_movies NDEBUG M U ss \<and> M + mps < UINT_MOD)"
    and W: "0 < W" and U: "0 < U"
    and run: "block_substeps blockFn W U [0..<j] (block_work_items W M U ups mps, (g, calls))
        = Inr (wis, (g1, calls1))"
    and ok: "cursors_ok g"
  shows "wis = map (\<lambda>k. work_item_on W M U ups mps ((j + k) mod W) k) [0..<W] \<and>
     out_edges g1 = out_edges g \<and> cursors_ok g1"
  using run
proof (induction j arbitrary: wis g1 calls1)
  case 0
  with ok show ?case
    using block_work_items_on [of W M U ups mps] by simp
next
  case (Suc j)
  from Suc.prems obtain wis0 g0 calls0 where
    a: "block_substeps blockFn W U [0..<j] (block_work_items W M U ups mps, (g, calls))
        = Inr (wis0, (g0, calls0))" and
    b: "block_substep blockFn W U j (wis0, (g0, calls0)) = Inr (wis, (g1, calls1))"
    by (auto simp: block_substeps_snoc split: sum.splits)
  note ih = Suc.IH [OF a]
  then have ok0: "cursors_ok g0" by simp
  from ih b have "block_substep blockFn W U j
        (map (\<lambda>k. work_item_on W M U ups mps ((j + k) mod W) k) [0..<W], (g0, calls0))
        = Inr (wis, (g1, calls1))" by simp
  from block_substep_cursor [OF kern W U this ok0] ih show ?case
    by simp
qed

lemma block_round_state:
  fixes W M U ups mps :: nat
  assumes kern: "blockFn = sgd_block NDEBUG M U ss \<or> blockFn = sgd_block_users NDEBUG M U ss \<or>
       (blockFn = sgd_block_users_movies NDEBUG M U ss \<and> M + mps < UINT_MOD)"
    and W: "0 < W" and U: "0 < U"
    and run: "block_round blockFn W U (block_work_items W M U ups mps, (g, calls))
        = Inr (wis, (g1, calls1))"
    and ok: "cursors_ok g"
  shows "wis = block_work_items W M U ups mps \<and> out_edges g1 = out_edges g \<and> cursors_ok g1"
proof -
  from block_substeps_state [OF kern W U run [unfolded block_round_def] ok]
  show ?thesis
    by (simp add: block_work_items_on [of W M U ups mps])
qed

lemma block_rounds_state:
  fixes W M U ups mps r :: nat
  assumes kern: "blockFn = sgd_block NDEBUG M U \<or> blockFn = sgd_block_users NDEBUG M U \<or>
       (blockFn = sgd_block_users_movies NDEBUG M U \<and> M + mps < UINT_MOD)"
    and W: "0 < W" and U: "0 < U"
    and run: "block_rounds blockFn lf W U [0..<r] (block_work_items W M U ups mps, (g, calls))
        = Inr (wis, (g1, calls1))"
    and ok: "cursors_ok g"
  shows "wis = block_work_items W M U ups mps \<and> out_edges g1 = out_edges g \<and> cursors_ok g1"
  using run
proof (induction r arbitrary: wis g1 calls1)
  case 0
  with ok show ?case by simp
next
  case (Suc r)
  from Suc.prems obtain wis0 g0 calls0 where
    a: "block_rounds blockFn lf W U [0..<r] (block_work_items W M U ups mps, (g, calls))
        = Inr (wis0, (g0, calls0))" and
    b: "block_round (blockFn (lf r)) W U (wis0, (g0, calls0)) = Inr (wis, (g1, calls1))"
    by (auto simp: block_rounds_snoc split: sum.splits)
  note ih = Suc.IH [OF a]
  then have ok0: "cursors_ok g0" by simp
  from kern have k: "blockFn (lf r) = sgd_block NDEBUG M U (lf r) \<or>
       blockFn (lf r) = sgd_block_users NDEBUG M U (lf r) \<or>
       (blockFn (lf r) = sgd_block_users_movies NDEBUG M U (lf r) \<and> M + mps < UINT_MOD)"
    by auto
  from ih b have "block_round (blockFn (lf r)) W U (block_work_items W M U ups mps, (g0, calls0))
      = Inr (wis, (g1, calls1))" by simp
  from block_round_state [OF k W U this ok0] ih show ?case
    by simp
qed

lemma advance_work_items_cursors_ok:
  assumes "cursors_ok g"
  shows "out_edges (foldl (advance_edge_iterators M) g wis) = out_edges g \<and>
         cursors_ok (foldl (advance_edge_iterators M) g wis)"
  using assms
proof (induction wis arbitrary: g)
  case Nil
  then show ?case by simp
next
  case (Cons w wis)
  from advance_fold_cursor [OF Cons.prems distinct_upt]
  have "out_edges (advance_edge_iterators M g w) = out_edges g"
    and ok: "cursors_ok (advance_edge_iterators M g w)"
    by (simp_all add: advance_edge_iterators_def)
  with Cons.IH [OF ok] show ?case by simp
qed

lemma block_start_state:
  assumes "cursors_ok g"
  shows "\<exists>g0. block_start W M U ups mps g = (block_work_items W M U ups mps, (g0, [])) \<and>
           out_edges g0 = out_edges g \<and> cursors_ok g0"
  using advance_work_items_cursors_ok [OF assms]
  by (simp add: block_start_def Let_def)

lemma cursors_ok_2x4: "cursors_ok graph_2x4"
  by (simp add: cursors_ok_def graph_2x4_def ones_node_fields UINT_MOD_def)

lemma intel_round_0: "IntelLearnFN 0 = 0.001"
  by (simp add: IntelLearnFN_def LEARNING_RATE_def)

subsection \<open>C4: the cursor over a round\<close>

text \<open>
  Against C4 as stated. Two workers, \<^verbatim>\<open>sgd_block_users\<close>, movies 0 and 1, users 2 to 5;
  movie 1 rates all four users and belongs to the second worker, whose first column is
  the one that ends at \<open>U\<close>. Its cursor is 4 after the advancer, 0 after the first
  sub-step of round 0, and 3 after the second and last: it has decreased within the
  round, and after the last sub-step it is neither 0 nor the out-degree 4.
\<close>

theorem cursor_after_round_counterexample:
  "\<forall>NDEBUG.
     (case block_start 2 2 4 2048 512 graph_2x4 of
        (workItems, g, calls) \<Rightarrow> edge_offset (node_data g 1) = 4) \<and>
     (case block_substep (sgd_block_users NDEBUG 2 4 0.001) 2 4 0
             (block_start 2 2 4 2048 512 graph_2x4) of
        Inl e \<Rightarrow> False
      | Inr (workItems, g, calls) \<Rightarrow> edge_offset (node_data g 1) = 0) \<and>
     (case block_round (sgd_block_users NDEBUG 2 4 0.001) 2 4
             (block_start 2 2 4 2048 512 graph_2x4) of
        Inl e \<Rightarrow> False
      | Inr (workItems, g, calls) \<Rightarrow>
          edge_offset (node_data g 1) = 3 \<and> length (out_edges g 1) = 4 \<and>
          calls = [(1, 2), (1, 3), (1, 4)])"
  by (simp add: grid_eval graph_2x4_def kernel_eval)

text \<open>
  C4, amended. A run of the grid scheduler with \<open>W\<close> workers and any of the three grid
  kernels, from a graph whose cursors are at most the out-degrees; round \<open>r\<close>, sub-step
  \<open>j\<close>, worker \<open>k\<close>. Every round starts with the work items as they were set up. In
  sub-step \<open>j\<close> worker \<open>k\<close> has its own row of movies and the column \<open>(j + k) mod W\<close>,
  which ends at \<open>U\<close> exactly when \<open>j + k + 1 = W\<close>. For every movie of the row the cursor
  is 0 after that sub-step, and after every other sub-step it is at least what it was
  before; it is always at most the out-degree. Every movie is in the row of some worker,
  and the cursor of a node that is not a movie does not change. So the cursor of a movie
  of worker \<open>k\<close> is reset in sub-step \<open>W - 1 - k\<close>, the last of the round for the first
  worker only, and does not decrease from there to the same sub-step of the next round.
  The last sub-step ends the round with the work items back where they started.
\<close>

theorem grid_round_cursor:
  fixes W M U ups mps r j k :: nat
  assumes W: "0 < W" and U: "0 < U" and ok: "cursors_ok g"
    and kern: "blockFn = sgd_block NDEBUG M U \<or> blockFn = sgd_block_users NDEBUG M U \<or>
       (blockFn = sgd_block_users_movies NDEBUG M U \<and> M + mps < UINT_MOD)"
    and rounds: "block_rounds blockFn lf W U [0..<r] (block_start W M U ups mps g)
        = Inr (wis0, (g0, calls0))"
    and before: "block_substeps (blockFn (lf r)) W U [0..<j] (wis0, (g0, calls0))
        = Inr (wis, (g1, calls1))"
    and step: "block_substep (blockFn (lf r)) W U j (wis, (g1, calls1)) = Inr (wis', (g2, calls2))"
    and j: "j < W" and k: "k < W"
  shows "wis0 = block_work_items W M U ups mps \<and>
     movieRangeStart (wis ! k) = movieRangeStart (wis0 ! k) \<and>
     movieRangeEnd (wis ! k) = movieRangeEnd (wis0 ! k) \<and>
     userRangeStart (wis ! k) = userRangeStartPoints W U ((j + k) mod W) \<and>
     userRangeEnd (wis ! k) = userRangeEndPoints W U ((j + k) mod W) \<and>
     (userRangeEnd (wis ! k) = U \<longleftrightarrow> j + k + 1 = W) \<and>
     (\<forall>n\<in>set [movieRangeStart (wis0 ! k)..<movieRangeEnd (wis0 ! k)].
        (if j + k + 1 = W then edge_offset (node_data g2 n) = 0
         else edge_offset (node_data g1 n) \<le> edge_offset (node_data g2 n)) \<and>
        edge_offset (node_data g2 n) \<le> length (out_edges g n)) \<and>
     (\<forall>n<M. \<exists>i<W. n \<in> set [movieRangeStart (wis0 ! i)..<movieRangeEnd (wis0 ! i)]) \<and>
     (\<forall>n. M \<le> n \<longrightarrow> edge_offset (node_data g2 n) = edge_offset (node_data g1 n)) \<and>
     (j + 1 = W \<longrightarrow>
        block_round (blockFn (lf r)) W U (wis0, (g0, calls0)) = Inr (wis', (g2, calls2)) \<and>
        wis' = block_work_items W M U ups mps)"
proof -
  from block_start_state [OF ok] obtain gA where
    s: "block_start W M U ups mps g = (block_work_items W M U ups mps, (gA, []))"
    and eA: "out_edges gA = out_edges g" and okA: "cursors_ok gA"
    by blast
  note r0 = block_rounds_state [OF kern W U rounds [unfolded s] okA]
  then have w0: "wis0 = block_work_items W M U ups mps"
    and e0: "out_edges g0 = out_edges g" and ok0: "cursors_ok g0"
    by (simp_all add: eA)
  from kern have kr: "blockFn (lf r) = sgd_block NDEBUG M U (lf r) \<or>
       blockFn (lf r) = sgd_block_users NDEBUG M U (lf r) \<or>
       (blockFn (lf r) = sgd_block_users_movies NDEBUG M U (lf r) \<and> M + mps < UINT_MOD)"
    by auto
  note b = block_substeps_state [OF kr W U before [unfolded w0] ok0]
  then have w1: "wis = map (\<lambda>k. work_item_on W M U ups mps ((j + k) mod W) k) [0..<W]"
    and e1: "out_edges g1 = out_edges g" and ok1: "cursors_ok g1"
    by (simp_all add: e0)
  note c = block_substep_cursor [OF kr W U step [unfolded w1] ok1]
  then have w2: "wis' = map (\<lambda>k. work_item_on W M U ups mps ((Suc j + k) mod W) k) [0..<W]"
    and e2: "out_edges g2 = out_edges g" and ok2: "cursors_ok g2"
    by (simp_all add: e1)
  have nk: "wis ! k = work_item_on W M U ups mps ((j + k) mod W) k"
    using k by (simp add: w1)
  have n0: "wis0 ! i = block_work_item W M U ups mps i" if "i < W" for i
    using that by (simp add: w0 block_work_items_def)
  have cm: "(j + k) mod W < W" using W by simp
  have last: "((j + k) mod W = W - 1) = (j + k + 1 = W)"
  proof (cases "j + k < W")
    case True
    then show ?thesis by auto
  next
    case False
    with j k have "(j + k) mod W = j + k - W"
      by (simp add: mod_if)
    with False j k show ?thesis by auto
  qed
  have col: "(userRangeEnd (wis ! k) = U) = (j + k + 1 = W)"
    using end_points_last [OF cm U] last by (simp add: nk work_item_on_fields)
  have cur: "(if j + k + 1 = W then edge_offset (node_data g2 n) = 0
         else edge_offset (node_data g1 n) \<le> edge_offset (node_data g2 n)) \<and>
        edge_offset (node_data g2 n) \<le> length (out_edges g n)"
    if "n \<in> set [movieRangeStart (wis0 ! k)..<movieRangeEnd (wis0 ! k)]" for n
  proof -
    from c k that
    have "if (j + k) mod W = W - 1 then edge_offset (node_data g2 n) = 0
        else edge_offset (node_data g1 n) \<le> edge_offset (node_data g2 n)"
      unfolding n0 [OF k] by blast
    moreover have "edge_offset (node_data g2 n) \<le> length (out_edges g n)"
      using cursors_ok_le [OF ok2, of n] by (simp add: e2)
    ultimately show ?thesis
      unfolding last by simp
  qed
  have cover: "\<exists>i<W. n \<in> set [movieRangeStart (wis0 ! i)..<movieRangeEnd (wis0 ! i)]"
    if "n < M" for n
  proof -
    from rows_cover [OF W that, of U ups mps] obtain i where
      "i < W" "n \<in> set [movieRangeStart (block_work_item W M U ups mps i)..<
                         movieRangeEnd (block_work_item W M U ups mps i)]"
      by blast
    then show ?thesis
      using n0 by auto
  qed
  have users: "edge_offset (node_data g2 n) = edge_offset (node_data g1 n)" if "M \<le> n" for n
  proof -
    have "\<forall>i<W. n \<notin> set [movieRangeStart (block_work_item W M U ups mps i)..<
                             movieRangeEnd (block_work_item W M U ups mps i)]"
    proof (intro allI impI)
      fix i assume "i < W"
      from movie_range_end_le [OF this, of M U ups mps] that
      show "n \<notin> set [movieRangeStart (block_work_item W M U ups mps i)..<
                             movieRangeEnd (block_work_item W M U ups mps i)]"
        by simp
    qed
    with c show ?thesis by blast
  qed
  have round: "block_round (blockFn (lf r)) W U (wis0, (g0, calls0)) = Inr (wis', (g2, calls2)) \<and>
        wis' = block_work_items W M U ups mps" if "j + 1 = W"
  proof -
    from that have up: "[0..<W] = [0..<j] @ [j]" by auto
    have "block_round (blockFn (lf r)) W U (wis0, (g0, calls0)) = Inr (wis', (g2, calls2))"
      unfolding block_round_def up block_substeps_snoc using before step by simp
    moreover from that have "(Suc j + i) mod W = (0 + i) mod W" for i
      by (metis Suc_eq_plus1 add_0 mod_add_self1)
    then have "wis' = block_work_items W M U ups mps"
      unfolding w2 block_work_items_on [of W M U ups mps] by simp
    ultimately show ?thesis by simp
  qed
  have "movieRangeStart (wis ! k) = movieRangeStart (wis0 ! k)"
    "movieRangeEnd (wis ! k) = movieRangeEnd (wis0 ! k)"
    "userRangeStart (wis ! k) = userRangeStartPoints W U ((j + k) mod W)"
    "userRangeEnd (wis ! k) = userRangeEndPoints W U ((j + k) mod W)"
    by (simp_all add: nk n0 [OF k] work_item_on_fields)
  with w0 col cur cover users round show ?thesis
    by blast
qed

theorem grid_round_cursor_witness:
  "(0::nat) < 2 \<and> (0::nat) < 4 \<and> cursors_ok graph_2x4 \<and>
   block_rounds (sgd_block_users True 2 4) IntelLearnFN 2 4 [0..<0]
       (block_start 2 2 4 2048 512 graph_2x4) = Inr (block_start 2 2 4 2048 512 graph_2x4) \<and>
   (\<exists>wis g1 calls1 wis' g2 calls2.
      block_substeps (sgd_block_users True 2 4 (IntelLearnFN 0)) 2 4 [0..<1]
          (block_start 2 2 4 2048 512 graph_2x4) = Inr (wis, (g1, calls1)) \<and>
      block_substep (sgd_block_users True 2 4 (IntelLearnFN 0)) 2 4 1 (wis, (g1, calls1))
          = Inr (wis', (g2, calls2)) \<and>
      block_round (sgd_block_users True 2 4 (IntelLearnFN 0)) 2 4
          (block_start 2 2 4 2048 512 graph_2x4) = Inr (wis', (g2, calls2)) \<and>
      wis' = block_work_items 2 2 4 2048 512 \<and>
      userRangeEnd (wis ! 0) = 4 \<and> userRangeEnd (wis ! 1) = 2 \<and>
      edge_offset (node_data g1 1) = 0 \<and>
      edge_offset (node_data g2 0) = 0 \<and>
      edge_offset (node_data g2 1) = 3)"
proof -
  let ?K = "sgd_block_users True 2 4"
  let ?start = "block_start 2 2 4 2048 512 graph_2x4"
  obtain wis0 g0 calls0 where st: "?start = (wis0, (g0, calls0))"
    by (cases ?start) auto
  have rounds: "block_rounds ?K IntelLearnFN 2 4 [0..<0] ?start = Inr (wis0, (g0, calls0))"
    by (simp add: st)
  have kern: "?K = sgd_block True 2 4 \<or> ?K = sgd_block_users True 2 4 \<or>
       (?K = sgd_block_users_movies True 2 4 \<and> 2 + 512 < UINT_MOD)"
    by simp
  have ev: "case block_round (?K (IntelLearnFN 0)) 2 4 ?start of
        Inl e \<Rightarrow> False
      | Inr (workItems, g, calls) \<Rightarrow> edge_offset (node_data g 1) = 3"
    unfolding intel_round_0 by (simp add: grid_eval graph_2x4_def kernel_eval)
  then obtain wis' g2 calls2 where
    rnd: "block_round (?K (IntelLearnFN 0)) 2 4 ?start = Inr (wis', (g2, calls2))"
    and three: "edge_offset (node_data g2 1) = 3"
    by (auto split: sum.splits)
  have up: "[0..<2] = [0..<1] @ [1::nat]" by (simp add: upt_rec)
  from rnd obtain wis g1 calls1 where
    before: "block_substeps (?K (IntelLearnFN 0)) 2 4 [0..<1] ?start = Inr (wis, (g1, calls1))"
    and step: "block_substep (?K (IntelLearnFN 0)) 2 4 1 (wis, (g1, calls1))
        = Inr (wis', (g2, calls2))"
    unfolding block_round_def up block_substeps_snoc by (auto split: sum.splits)
  have before0: "block_substeps (?K (IntelLearnFN 0)) 2 4 [0..<0] (wis0, (g0, calls0))
      = Inr (wis0, (g0, calls0))"
    by simp
  from before have step0: "block_substep (?K (IntelLearnFN 0)) 2 4 0 (wis0, (g0, calls0))
      = Inr (wis, (g1, calls1))"
    by (simp add: st upt_rec split: sum.splits)
  note last = grid_round_cursor [OF _ _ cursors_ok_2x4 kern rounds before [unfolded st] step,
      where k = 0]
  note first = grid_round_cursor [OF _ _ cursors_ok_2x4 kern rounds before0 step0,
      where k = 1]
  from last have w0: "wis0 = block_work_items 2 2 4 2048 512"
    and e0: "userRangeEnd (wis ! 0) = userRangeEndPoints 2 4 ((1 + 0) mod 2)"
    and c0: "\<forall>n\<in>set [movieRangeStart (wis0 ! 0)..<movieRangeEnd (wis0 ! 0)].
        (if 1 + 0 + 1 = (2::nat) then edge_offset (node_data g2 n) = 0
         else edge_offset (node_data g1 n) \<le> edge_offset (node_data g2 n)) \<and>
        edge_offset (node_data g2 n) \<le> length (out_edges graph_2x4 n)"
    and w': "wis' = block_work_items 2 2 4 2048 512"
    by simp_all
  from first have c1: "\<forall>n\<in>set [movieRangeStart (wis0 ! 1)..<movieRangeEnd (wis0 ! 1)].
        (if 0 + 1 + 1 = (2::nat) then edge_offset (node_data g1 n) = 0
         else edge_offset (node_data g0 n) \<le> edge_offset (node_data g1 n)) \<and>
        edge_offset (node_data g1 n) \<le> length (out_edges graph_2x4 n)"
    by simp
  from grid_round_cursor [OF _ _ cursors_ok_2x4 kern rounds before [unfolded st] step,
      where k = 1]
  have e1: "userRangeEnd (wis ! 1) = userRangeEndPoints 2 4 ((1 + 1) mod 2)"
    by simp
  have rows: "movieRangeStart (wis0 ! 0) = 0" "movieRangeEnd (wis0 ! 0) = 1"
    "movieRangeStart (wis0 ! 1) = 1" "movieRangeEnd (wis0 ! 1) = 2"
    by (simp_all add: w0 block_work_items_def block_work_item_def)
  have "0 \<in> set [movieRangeStart (wis0 ! 0)..<movieRangeEnd (wis0 ! 0)]"
    unfolding rows by simp
  from bspec [OF c0 this] have z0: "edge_offset (node_data g2 0) = 0"
    by simp
  have "1 \<in> set [movieRangeStart (wis0 ! 1)..<movieRangeEnd (wis0 ! 1)]"
    unfolding rows by simp
  from bspec [OF c1 this] have z1: "edge_offset (node_data g1 1) = 0"
    by simp
  from e0 e1 have ends: "userRangeEnd (wis ! 0) = 4" "userRangeEnd (wis ! 1) = 2"
    by (simp_all add: userRangeEndPoints_def)
  from before step rnd w' ends z0 z1 three
  have "\<exists>wis g1 calls1 wis' g2 calls2.
      block_substeps (?K (IntelLearnFN 0)) 2 4 [0..<1] ?start = Inr (wis, (g1, calls1)) \<and>
      block_substep (?K (IntelLearnFN 0)) 2 4 1 (wis, (g1, calls1)) = Inr (wis', (g2, calls2)) \<and>
      block_round (?K (IntelLearnFN 0)) 2 4 ?start = Inr (wis', (g2, calls2)) \<and>
      wis' = block_work_items 2 2 4 2048 512 \<and>
      userRangeEnd (wis ! 0) = 4 \<and> userRangeEnd (wis ! 1) = 2 \<and>
      edge_offset (node_data g1 1) = 0 \<and>
      edge_offset (node_data g2 0) = 0 \<and>
      edge_offset (node_data g2 1) = 3"
    by blast
  moreover have "block_rounds ?K IntelLearnFN 2 4 [0..<0] ?start = Inr ?start"
    by simp
  ultimately show ?thesis
    using cursors_ok_2x4 by simp
qed

subsection \<open>C3: where the advancer leaves the cursor\<close>

text \<open>
  C3 on the spec's cursor graph with one worker: one movie (\<open>M = 1\<close>), users 1 to 4,
  the worker's \<open>userRangeStart\<close> 0. The claim leaves the cursor at the first edge whose
  destination exceeds \<open>userRangeStart + M = 1\<close>, the edge at index 1 (to node 2). The
  advancer leaves it at index 2: it has passed the edge to node 2.
\<close>

theorem advancer_passes_one_edge_more:
  "(case block_start 1 1 4 2048 512 graph_1x4 of
      (workItems, g, calls) \<Rightarrow>
        userRangeStart (workItems ! 0) = 0 \<and>
        edge_offset (node_data g 0) = 2 \<and>
        take 2 (out_edges g 0) = [(1, 3), (2, 3)] \<and>
        userRangeStart (workItems ! 0) + 1 < fst (out_edges g 0 ! 1))"
  by (simp add: grid_eval graph_1x4_def)

subsection \<open>The node-by-movie scheduler\<close>


lemma node_movie_edges_effect:
  assumes "node_movie_edges NDEBUG ss node es (g, calls) = Inr (g', calls')"
  shows "out_edges g' = out_edges g \<and>
         (\<forall>n. updates (node_data g' n) = updates (node_data g n) \<and>
              edge_offset (node_data g' n) = edge_offset (node_data g n)) \<and>
         calls' = calls @ map (\<lambda>e. (node, fst e)) es"
  using assms
proof (induction es arbitrary: g calls)
  case Nil
  then show ?case by simp
next
  case (Cons e es)
  obtain user edge_rating where e: "e = (user, edge_rating)" by (cases e)
  from Cons.prems e obtain g1 where
    k: "kernel_call NDEBUG ss node user edge_rating g = Inr g1" and
    r: "node_movie_edges NDEBUG ss node es (g1, calls @ [(node, user)]) = Inr (g', calls')"
    by (auto split: sum.splits)
  from Cons.IH [OF r] show ?case
    by (simp add: e kernel_call_cursor [OF k])
qed

lemma sgd_node_movie_effect:
  assumes "sgd_node_movie NDEBUG ss node (g, calls) = Inr (g', calls')"
  shows "out_edges g' = out_edges g \<and>
         (\<forall>n. updates (node_data g' n) = updates (node_data g n) \<and>
              edge_offset (node_data g' n) = edge_offset (node_data g n)) \<and>
         calls' = calls @ map (\<lambda>e. (node, fst e)) (out_edges g node)"
  using node_movie_edges_effect [of NDEBUG ss node "out_edges g node" g calls g' calls'] assms
  by (simp add: sgd_node_movie_def)

lemma node_movie_loop_effect:
  assumes "movies_loop (sgd_node_movie NDEBUG ss) ms (g, calls) = Inr (g', calls')"
  shows "out_edges g' = out_edges g \<and>
         (\<forall>n. updates (node_data g' n) = updates (node_data g n) \<and>
              edge_offset (node_data g' n) = edge_offset (node_data g n)) \<and>
         calls' = calls @ concat (map (\<lambda>m. map (\<lambda>e. (m, fst e)) (out_edges g m)) ms)"
  using assms
proof (induction ms arbitrary: g calls)
  case Nil
  then show ?case by simp
next
  case (Cons m ms)
  obtain s1 where b: "sgd_node_movie NDEBUG ss m (g, calls) = Inr s1"
    and r: "movies_loop (sgd_node_movie NDEBUG ss) ms s1 = Inr (g', calls')"
    using Cons.prems by (cases "sgd_node_movie NDEBUG ss m (g, calls)") simp_all
  obtain g1 calls1 where s1: "s1 = (g1, calls1)" by (cases s1)
  from Cons.IH [OF r [unfolded s1]] sgd_node_movie_effect [OF b [unfolded s1]] show ?case
    by simp
qed

lemma node_movie_rounds_effect:
  assumes "node_movie_rounds NDEBUG lf ms rounds (g, calls) = Inr (g', calls')"
  shows "out_edges g' = out_edges g \<and>
         (\<forall>n. updates (node_data g' n) = updates (node_data g n) \<and>
              edge_offset (node_data g' n) = edge_offset (node_data g n)) \<and>
         calls' = calls @ concat (map (\<lambda>i.
                    concat (map (\<lambda>m. map (\<lambda>e. (m, fst e)) (out_edges g m)) ms)) rounds)"
  using assms
proof (induction rounds arbitrary: g calls)
  case Nil
  then show ?case by simp
next
  case (Cons i rounds)
  from Cons.prems obtain g1 calls1 where
    b: "movies_loop (sgd_node_movie NDEBUG (lf i)) ms (g, calls) = Inr (g1, calls1)" and
    r: "node_movie_rounds NDEBUG lf ms rounds (g1, calls1) = Inr (g', calls')"
    by (auto split: sum.splits)
  from Cons.IH [OF r] node_movie_loop_effect [OF b] show ?case
    by simp
qed

lemma node_movie_edges_returns:
  "\<exists>s'. node_movie_edges True ss node es s = Inr s'"
proof (induction es arbitrary: s)
  case Nil
  then show ?case by simp
next
  case (Cons e es)
  obtain g calls where s: "s = (g, calls)" by (cases s)
  obtain user edge_rating where e: "e = (user, edge_rating)" by (cases e)
  obtain g1 where "kernel_call True ss node user edge_rating g = Inr g1"
    using kernel_call_returns [of True] by blast
  with Cons.IH [of "(g1, calls @ [(node, user)])"] show ?case
    by (simp add: s e)
qed

lemma sgd_node_movie_returns:
  "\<exists>s'. sgd_node_movie True ss node s = Inr s'"
  using node_movie_edges_returns by (cases s) (simp add: sgd_node_movie_def)

lemma node_movie_rounds_returns:
  "\<exists>s'. node_movie_rounds True lf ms rounds s = Inr s'"
proof (induction rounds arbitrary: s)
  case Nil
  then show ?case by simp
next
  case (Cons i rounds)
  obtain s1 where "movies_loop (sgd_node_movie True (lf i)) ms s = Inr s1"
    using movies_loop_returns [of "sgd_node_movie True (lf i)"] sgd_node_movie_returns
    by blast
  with Cons.IH [of s1] show ?case by simp
qed

subsection \<open>C6: the update counter\<close>

text \<open>
  C6 on the graph with one movie, one user and one edge, \<^verbatim>\<open>algo = nodeMovie\<close>, without
  assertions: in the ten rounds the kernel is applied ten times with node 0 as the movie,
  and at the end the \<^verbatim>\<open>updates\<close> field of node 0 is 0. One task of
  \<^verbatim>\<open>sgd_edge_movie\<close> on the same graph applies the kernel once and leaves the field at
  0, where one call of \<^verbatim>\<open>sgd_block_users_movies\<close> applies it once and leaves the field
  at 1.
\<close>

theorem node_movie_never_counts:
  "(case sgd_node_movie_go True IntelLearnFN graph_1x1 of
      Inl e \<Rightarrow> False
    | Inr (g, calls) \<Rightarrow>
        calls = [(0, 1), (0, 1), (0, 1), (0, 1), (0, 1), (0, 1), (0, 1), (0, 1), (0, 1), (0, 1)] \<and>
        updates (node_data g 0) = 0) \<and>
   (case sgd_edge_movie True 0.001 0 (graph_1x1, []) of
      Inl e \<Rightarrow> False
    | Inr ((g, calls), pushed) \<Rightarrow>
        calls = [(0, 1)] \<and> updates (node_data g 0) = 0 \<and> \<not> pushed) \<and>
   (case sgd_block_users_movies True 1 1 0.001 (block_work_item 1 1 1 2048 512 0)
           (graph_1x1, []) of
      Inl e \<Rightarrow> False
    | Inr (g, calls) \<Rightarrow> calls = [(0, 1)] \<and> updates (node_data g 0) = 1)"
proof -
  have edge: "case sgd_edge_movie True 0.001 0 (graph_1x1, []) of
      Inl e \<Rightarrow> False
    | Inr ((g, calls), pushed) \<Rightarrow>
        calls = [(0, 1)] \<and> updates (node_data g 0) = 0 \<and> \<not> pushed"
    by (simp add: sgd_edge_movie_def graph_1x1_def kernel_eval set_edge_offset_def
        UINT_MOD_def upt_rec ones_node_fields)
  have block: "case sgd_block_users_movies True 1 1 0.001 (block_work_item 1 1 1 2048 512 0)
           (graph_1x1, []) of
      Inl e \<Rightarrow> False
    | Inr (g, calls) \<Rightarrow> calls = [(0, 1)] \<and> updates (node_data g 0) = 1"
    by (simp add: grid_eval graph_1x1_def kernel_eval)
  obtain g calls where
    r: "node_movie_rounds True IntelLearnFN (Movies graph_1x1) [0..<10] (graph_1x1, []) = Inr (g, calls)"
    using node_movie_rounds_returns [of IntelLearnFN "Movies graph_1x1" "[0..<10]" "(graph_1x1, [])"]
    by auto
  have m: "Movies graph_1x1 = [0]"
    by (simp add: Movies_def graph_1x1_def upt_rec)
  have e: "out_edges graph_1x1 0 = [(1, 3)]" and n: "updates (node_data graph_1x1 0) = 0"
    by (simp_all add: graph_1x1_def ones_node_fields)
  from node_movie_rounds_effect [OF r]
  have "calls = [(0, 1), (0, 1), (0, 1), (0, 1), (0, 1), (0, 1), (0, 1), (0, 1), (0, 1), (0, 1)]"
    and "updates (node_data g 0) = 0"
    unfolding m by (simp_all add: e n upt_rec)
  with r edge block show ?thesis
    by (simp add: sgd_node_movie_go_def)
qed




subsection \<open>The loop of a marching worker\<close>


lemma march_loop_stop:
  "\<not> sliceUpdates < (MAX_MOVIE_UPDATES * numSlices workItem) mod UINT_MOD \<Longrightarrow>
     march_loop NDEBUG M U ss num_locks workItem (cur, sliceId, sliceUpdates) (s, acquired)
       = Inr (s, acquired)"
  by (simp add: march_loop.simps)

lemma march_loop_step:
  assumes "sliceUpdates < (MAX_MOVIE_UPDATES * numSlices workItem) mod UINT_MOD"
  shows "march_loop NDEBUG M U ss num_locks workItem (cur, sliceId, sliceUpdates) (s, acquired) =
     (if \<not> sliceId < num_locks then Inl LockIndexOutOfRange
      else case movies_loop
                  (movie_body NDEBUG ss ((next_slice_end workItem cur + M) mod UINT_MOD)
                     (next_slice_end workItem cur = U))
                  [movieRangeStart workItem..<movieRangeEnd workItem] s of
             Inl e \<Rightarrow> Inl e
           | Inr s' \<Rightarrow>
               march_loop NDEBUG M U ss num_locks workItem
                 (if next_slice_end workItem cur = userRangeEnd workItem
                  then (0, 0, sliceUpdates + 1)
                  else (next_slice_end workItem cur, (sliceId + 1) mod UINT_MOD,
                        sliceUpdates + 1))
                 (s', acquired @ [sliceId]))"
proof -
  have "(MAX_MOVIE_UPDATES * numSlices workItem) mod UINT_MOD < UINT_MOD"
    by (simp add: UINT_MOD_def)
  with assms have "(sliceUpdates + 1) mod UINT_MOD = sliceUpdates + 1"
    by simp
  with assms show ?thesis
    by (subst march_loop.simps) (simp add: Let_def split: sum.split del: One_nat_def)
qed

lemma march_loop_count:
  assumes "march_loop NDEBUG M U ss num_locks workItem (cur, sliceId, sliceUpdates) (s, acquired)
             = Inr (s', acquired')"
      and "(MAX_MOVIE_UPDATES * numSlices workItem) mod UINT_MOD - sliceUpdates = n"
  shows "length acquired' = length acquired + n"
  using assms
proof (induction n arbitrary: cur sliceId sliceUpdates s acquired)
  case 0
  then have "\<not> sliceUpdates < (MAX_MOVIE_UPDATES * numSlices workItem) mod UINT_MOD"
    by simp
  from march_loop_stop [OF this] "0.prems"(1) show ?case
    by simp
next
  case (Suc n)
  then have lt: "sliceUpdates < (MAX_MOVIE_UPDATES * numSlices workItem) mod UINT_MOD"
    by simp
  from Suc.prems(2) have n: "(MAX_MOVIE_UPDATES * numSlices workItem) mod UINT_MOD
      - (sliceUpdates + 1) = n"
    by simp
  let ?c = "next_slice_end workItem cur"
  from Suc.prems(1) obtain s1 where
    r: "march_loop NDEBUG M U ss num_locks workItem
          (if ?c = userRangeEnd workItem then (0, 0, sliceUpdates + 1)
           else (?c, (sliceId + 1) mod UINT_MOD, sliceUpdates + 1))
          (s1, acquired @ [sliceId]) = Inr (s', acquired')"
    unfolding march_loop_step [OF lt]
    by (auto split: if_splits sum.splits)
  show ?case
  proof (cases "?c = userRangeEnd workItem")
    case True
    with r Suc.IH [OF _ n, of 0 0 s1 "acquired @ [sliceId]"] show ?thesis
      by simp
  next
    case False
    with r Suc.IH [OF _ n, of ?c "(sliceId + 1) mod UINT_MOD" s1 "acquired @ [sliceId]"]
    show ?thesis
      by simp
  qed
qed

lemma march_loop_returns:
  assumes "0 < usersPerBlockSlice workItem"
      and "userRangeEnd workItem + usersPerBlockSlice workItem < UINT_MOD"
      and "userRangeEnd workItem \<le> num_locks * usersPerBlockSlice workItem"
      and "(MAX_MOVIE_UPDATES * numSlices workItem) mod UINT_MOD - sliceUpdates = n"
      and "sliceId * usersPerBlockSlice workItem \<le> cur \<and> cur < userRangeEnd workItem"
  shows "\<exists>r. march_loop True M U ss num_locks workItem (cur, sliceId, sliceUpdates) (s, acquired)
               = Inr r"
  using assms(4,5)
proof (induction n arbitrary: cur sliceId sliceUpdates s acquired)
  case 0
  then have "\<not> sliceUpdates < (MAX_MOVIE_UPDATES * numSlices workItem) mod UINT_MOD"
    by simp
  from march_loop_stop [OF this] show ?case
    by simp
next
  case (Suc n)
  let ?ups = "usersPerBlockSlice workItem"
  let ?end = "userRangeEnd workItem"
  let ?c = "next_slice_end workItem cur"
  from Suc.prems have lt: "sliceUpdates < (MAX_MOVIE_UPDATES * numSlices workItem) mod UINT_MOD"
    by simp
  from Suc.prems(1) have n: "(MAX_MOVIE_UPDATES * numSlices workItem) mod UINT_MOD
      - (sliceUpdates + 1) = n"
    by simp
  from Suc.prems(2) have inv: "sliceId * ?ups \<le> cur" "cur < ?end" by simp_all
  have "sliceId * ?ups < num_locks * ?ups"
    using inv assms(3) by linarith
  then have lock: "sliceId < num_locks"
    by (rule mult_less_cancel2 [THEN iffD1, THEN conjunct2])
  have nowrap: "(cur + ?ups) mod UINT_MOD = cur + ?ups"
    using inv assms(2) by simp
  have c: "?c = (if cur + ?ups > ?end then ?end else cur + ?ups)"
    by (simp add: next_slice_end_def Let_def nowrap)
  have "sliceId * 1 \<le> sliceId * ?ups"
    using assms(1) by (intro mult_le_mono2) simp
  then have "sliceId \<le> sliceId * ?ups" by simp
  with inv assms(1,2) have "sliceId + 1 < UINT_MOD" by linarith
  then have sid: "(sliceId + 1) mod UINT_MOD = sliceId + 1" by simp
  obtain s1 where m: "movies_loop (movie_body True ss ((?c + M) mod UINT_MOD) (?c = U))
        [movieRangeStart workItem..<movieRangeEnd workItem] s = Inr s1"
    using movies_loop_returns [of "movie_body True ss ((?c + M) mod UINT_MOD) (?c = U)"]
      movie_body_returns by blast
  show ?case
  proof (cases "?c = ?end")
    case True
    have "0 * ?ups \<le> (0::nat) \<and> (0::nat) < ?end"
      using inv by simp
    from Suc.IH [OF n this, of s1 "acquired @ [sliceId]"] True m lock show ?thesis
      unfolding march_loop_step [OF lt] by simp
  next
    case False
    with c have c2: "?c = cur + ?ups" "cur + ?ups < ?end"
      by (auto split: if_splits)
    have "(sliceId + 1) * ?ups \<le> ?c \<and> ?c < ?end"
      using inv c2 by (simp add: algebra_simps)
    from Suc.IH [OF n this, of s1 "acquired @ [sliceId]"] False m lock show ?thesis
      unfolding march_loop_step [OF lt] by (simp add: sid del: One_nat_def)
  qed
qed


lemma sgd_march_count:
  assumes "sgd_march NDEBUG M U ss num_locks workItem s = Inr (s', acquired)"
  shows "length acquired = (MAX_MOVIE_UPDATES * numSlices workItem) mod UINT_MOD"
  using march_loop_count [OF assms [unfolded sgd_march_def]] by simp

lemma do_all_march_count:
  assumes "do_all_march (sgd_march NDEBUG M U ss num_locks) workItems (s, acquired)
             = Inr (s', acquired')"
      and "\<forall>w\<in>set workItems. numSlices w = S"
      and "\<forall>a\<in>set acquired. length a = (MAX_MOVIE_UPDATES * S) mod UINT_MOD"
  shows "length acquired' = length acquired + length workItems \<and>
         (\<forall>a\<in>set acquired'. length a = (MAX_MOVIE_UPDATES * S) mod UINT_MOD)"
  using assms
proof (induction workItems arbitrary: s acquired)
  case Nil
  then show ?case by simp
next
  case (Cons w ws)
  from Cons.prems(1) obtain s1 a where
    m: "sgd_march NDEBUG M U ss num_locks w s = Inr (s1, a)" and
    r: "do_all_march (sgd_march NDEBUG M U ss num_locks) ws (s1, acquired @ [a])
          = Inr (s', acquired')"
    by (auto split: sum.splits)
  from sgd_march_count [OF m] Cons.prems(2)
  have "length a = (MAX_MOVIE_UPDATES * S) mod UINT_MOD" by simp
  with Cons.prems(3)
  have "\<forall>a\<in>set (acquired @ [a]). length a = (MAX_MOVIE_UPDATES * S) mod UINT_MOD"
    by simp
  from Cons.IH [OF r _ this] Cons.prems(2) show ?case
    by simp
qed

lemma sgd_march_returns:
  assumes "0 < usersPerBlockSlice workItem"
      and "userRangeEnd workItem + usersPerBlockSlice workItem < UINT_MOD"
      and "userRangeEnd workItem \<le> num_locks * usersPerBlockSlice workItem"
      and "numSlices workItem = 0 \<or>
           sliceStart workItem * usersPerBlockSlice workItem \<le> userRangeStart workItem \<and>
           userRangeStart workItem < userRangeEnd workItem"
  shows "\<exists>r. sgd_march True M U ss num_locks workItem s = Inr r"
proof (cases "numSlices workItem = 0")
  case True
  then have "\<not> 0 < (MAX_MOVIE_UPDATES * numSlices workItem) mod UINT_MOD"
    by simp
  from march_loop_stop [OF this] show ?thesis
    by (simp add: sgd_march_def)
next
  case False
  with assms(4) have "sliceStart workItem * usersPerBlockSlice workItem \<le> userRangeStart workItem \<and>
           userRangeStart workItem < userRangeEnd workItem"
    by simp
  from march_loop_returns [OF assms(1-3) refl this] show ?thesis
    by (simp add: sgd_march_def)
qed

lemma do_all_march_returns:
  assumes "\<And>w s. w \<in> set workItems \<Longrightarrow> \<exists>r. worker w s = Inr r"
  shows "\<exists>r. do_all_march worker workItems st = Inr r"
  using assms
proof (induction workItems arbitrary: st)
  case Nil
  then show ?case by simp
next
  case (Cons w ws)
  obtain s acquired where st: "st = (s, acquired)" by (cases st)
  obtain r where "worker w s = Inr r"
    using Cons.prems [of w s] by auto
  moreover obtain s1 a where "r = (s1, a)" by (cases r)
  ultimately show ?case
    using Cons.IH [of "(s1, acquired @ [a])"] Cons.prems by (simp add: st)
qed

lemma march_work_item_start:
  fixes numWorkItems i ups U :: nat
  assumes "0 < numWorkItems" and "i < numWorkItems" and "0 < ups" and "ups dvd U"
  shows "((U div ups) div numWorkItems) * i * ups \<le> (U div numWorkItems) * i"
    and "0 < U \<Longrightarrow> (U div numWorkItems) * i < U"
proof -
  let ?S = "U div ups"
  have "((?S div numWorkItems) * ups) * numWorkItems = ((?S div numWorkItems) * numWorkItems) * ups"
    by (simp add: ac_simps)
  also have "\<dots> \<le> ?S * ups"
    by (rule mult_le_mono1) simp
  also have "?S * ups = U"
    by (rule dvd_div_mult_self [OF assms(4)])
  finally have "((?S div numWorkItems) * ups) * numWorkItems \<le> U" .
  then have "(?S div numWorkItems) * ups \<le> U div numWorkItems"
    using assms(1) by (simp add: less_eq_div_iff_mult_less_eq)
  then have "((?S div numWorkItems) * ups) * i \<le> (U div numWorkItems) * i"
    by (rule mult_le_mono1)
  then show "(?S div numWorkItems) * i * ups \<le> (U div numWorkItems) * i"
    by (simp add: mult.commute mult.left_commute)
  show "(U div numWorkItems) * i < U" if "0 < U"
  proof (cases "U div numWorkItems = 0")
    case True
    with that show ?thesis by simp
  next
    case False
    have "i + 1 \<le> numWorkItems" using assms(2) by simp
    then have "(U div numWorkItems) * (i + 1) \<le> (U div numWorkItems) * numWorkItems"
      by (rule mult_le_mono2)
    also have "\<dots> \<le> U" by simp
    finally have "(U div numWorkItems) * i + U div numWorkItems \<le> U" by simp
    with False show ?thesis by simp
  qed
qed

subsection \<open>C8: the iterations of a marching worker\<close>

text \<open>
  C8, amended. A marching worker that returns has run its loop exactly
  \<open>(MAX_MOVIE_UPDATES * numSlices) mod 2 ^ 32\<close> times, the counter growing by one in
  every iteration, wrap-around iterations included. In \<^verbatim>\<open>runSliceMarch\<close>, when
  \<open>usersPerBlockSlice\<close> is positive and divides \<open>U\<close> (so that the slice numbers stay
  inside the lock array), \<open>U + usersPerBlockSlice\<close> and \<open>MAX_MOVIE_UPDATES * S\<close> are
  below \<open>2 ^ 32\<close> for \<open>S = U div usersPerBlockSlice\<close>, and there is at least one
  worker: without assertions the run returns, and in every run that returns each of the
  workers has acquired exactly \<open>MAX_MOVIE_UPDATES * S\<close> slices.
\<close>

theorem march_worker_iterations:
  "(\<forall>NDEBUG ss num_locks workItem s s' acquired.
      sgd_march NDEBUG M U ss num_locks workItem s = Inr (s', acquired) \<longrightarrow>
      length acquired = (MAX_MOVIE_UPDATES * numSlices workItem) mod UINT_MOD) \<and>
   (0 < numWorkItems \<and> 0 < ups \<and> ups dvd U \<and> U + ups < UINT_MOD \<and>
    MAX_MOVIE_UPDATES * (U div ups) < UINT_MOD \<longrightarrow>
      (\<exists>r. runSliceMarch True lf numWorkItems M U ups g = Inr r) \<and>
      (\<forall>NDEBUG s' acquired.
         runSliceMarch NDEBUG lf numWorkItems M U ups g = Inr (s', acquired) \<longrightarrow>
         length acquired = numWorkItems \<and>
         (\<forall>a\<in>set acquired. length a = MAX_MOVIE_UPDATES * (U div ups))))"
proof (intro conjI impI allI)
  fix NDEBUG ss num_locks workItem s s' acquired
  assume "sgd_march NDEBUG M U ss num_locks workItem s = Inr (s', acquired)"
  then show "length acquired = (MAX_MOVIE_UPDATES * numSlices workItem) mod UINT_MOD"
    by (rule sgd_march_count)
next
  assume a: "0 < numWorkItems \<and> 0 < ups \<and> ups dvd U \<and> U + ups < UINT_MOD \<and>
    MAX_MOVIE_UPDATES * (U div ups) < UINT_MOD"
  let ?ws = "map (march_work_item numWorkItems M U ups) [0..<numWorkItems]"
  have U: "(U div ups) * ups = U" using a by simp
  have "\<exists>r. sgd_march True M U (lf 1) (U div ups) w s = Inr r" if "w \<in> set ?ws" for w s
  proof -
    from that obtain i where i: "i < numWorkItems" and w: "w = march_work_item numWorkItems M U ups i"
      by auto
    have f: "usersPerBlockSlice w = ups" "userRangeEnd w = U" "numSlices w = U div ups"
      "sliceStart w = ((U div ups) div numWorkItems) * i"
      "userRangeStart w = (U div numWorkItems) * i"
      by (simp_all add: w march_work_item_def)
    have "numSlices w = 0 \<or>
           sliceStart w * usersPerBlockSlice w \<le> userRangeStart w \<and>
           userRangeStart w < userRangeEnd w"
    proof (cases "U = 0")
      case True
      then show ?thesis by (simp add: f)
    next
      case False
      with march_work_item_start [of numWorkItems i ups U] a i show ?thesis
        by (simp add: f)
    qed
    moreover have "0 < usersPerBlockSlice w" "userRangeEnd w + usersPerBlockSlice w < UINT_MOD"
      "userRangeEnd w \<le> (U div ups) * usersPerBlockSlice w"
      using a U by (simp_all add: f)
    ultimately show ?thesis
      by (intro sgd_march_returns)
  qed
  from do_all_march_returns [of ?ws "sgd_march True M U (lf 1) (U div ups)", OF this] a
  show "\<exists>r. runSliceMarch True lf numWorkItems M U ups g = Inr r"
    by (simp add: runSliceMarch_def Let_def)
next
  fix NDEBUG s' acquired
  assume a: "0 < numWorkItems \<and> 0 < ups \<and> ups dvd U \<and> U + ups < UINT_MOD \<and>
    MAX_MOVIE_UPDATES * (U div ups) < UINT_MOD"
    and r: "runSliceMarch NDEBUG lf numWorkItems M U ups g = Inr (s', acquired)"
  let ?ws = "map (march_work_item numWorkItems M U ups) [0..<numWorkItems]"
  from r a have d: "do_all_march (sgd_march NDEBUG M U (lf 1) (U div ups)) ?ws
      ((foldl (advance_edge_iterators M) g ?ws, []), []) = Inr (s', acquired)"
    by (simp add: runSliceMarch_def Let_def)
  have n: "\<forall>w\<in>set ?ws. numSlices w = U div ups"
    by (simp add: march_work_item_def)
  have e: "\<forall>a\<in>set ([] :: nat list list). length a = (MAX_MOVIE_UPDATES * (U div ups)) mod UINT_MOD"
    by simp
  from do_all_march_count [OF d n e] a
  show "length acquired = numWorkItems"
    and "\<forall>a\<in>set acquired. length a = MAX_MOVIE_UPDATES * (U div ups)"
    by simp_all
qed

theorem march_worker_iterations_witness:
  "(0::nat) < 1 \<and> (0::nat) < 2 \<and> (2::nat) dvd 4 \<and> (4::nat) + 2 < UINT_MOD \<and>
   MAX_MOVIE_UPDATES * (4 div 2) < UINT_MOD \<and>
   (\<exists>s' acquired. runSliceMarch True IntelLearnFN 1 1 4 2 graph_1x4 = Inr (s', acquired) \<and>
      map length acquired = [10])"
proof -
  have h: "(0::nat) < 1 \<and> (0::nat) < 2 \<and> (2::nat) dvd 4 \<and> (4::nat) + 2 < UINT_MOD \<and>
   MAX_MOVIE_UPDATES * (4 div 2) < UINT_MOD"
    by (simp add: UINT_MOD_def MAX_MOVIE_UPDATES_def)
  from march_worker_iterations [of 1 4 1 2 IntelLearnFN graph_1x4] h
  have ex: "\<exists>r. runSliceMarch True IntelLearnFN 1 1 4 2 graph_1x4 = Inr r"
    and all: "\<forall>NDEBUG s' acquired.
         runSliceMarch NDEBUG IntelLearnFN 1 1 4 2 graph_1x4 = Inr (s', acquired) \<longrightarrow>
         length acquired = 1 \<and>
         (\<forall>a\<in>set acquired. length a = MAX_MOVIE_UPDATES * (4 div 2))"
    by blast+
  from ex obtain s' acquired where
    r: "runSliceMarch True IntelLearnFN 1 1 4 2 graph_1x4 = Inr (s', acquired)"
    by auto
  with all have l: "length acquired = 1"
    and "\<forall>a\<in>set acquired. length a = MAX_MOVIE_UPDATES * (4 div 2)"
    by blast+
  then have "map length acquired = [10]"
    by (cases acquired) (simp_all add: MAX_MOVIE_UPDATES_def)
  with r have "\<exists>s' acquired. runSliceMarch True IntelLearnFN 1 1 4 2 graph_1x4 = Inr (s', acquired) \<and>
      map length acquired = [10]"
    by (intro exI conjI)
  with h show ?thesis by simp
qed

lemmas march_eval =
  runSliceMarch_def march_work_item_def sgd_march_def march_loop_step march_loop_stop
  MAX_MOVIE_UPDATES_def UINT_MOD_def advance_edge_iterators_def advance_movie_def
  userIdToUserNode_def set_edge_offset_def movie_body_def next_slice_end_def
  ones_node_fields upt_rec Let_def

text \<open>
  Against C8 as stated. With five users and slices of two users there are
  \<open>S = 5 div 2 = 2\<close> locks, and the single worker's third slice, the users behind the
  fourth, has the number 2: the run stops at an index outside the lock array instead of
  making 10 acquisitions. With 858993460 users and slices of one user,
  \<open>MAX_MOVIE_UPDATES * S = 4294967300\<close> is 4 as an \<^verbatim>\<open>unsigned int\<close>, and the worker
  returns after 4 iterations.
\<close>

theorem march_worker_counterexample:
  "(\<forall>NDEBUG. runSliceMarch NDEBUG IntelLearnFN 1 1 5 2 graph_1x5 = Inl LockIndexOutOfRange) \<and>
   (5::nat) div 2 = 2 \<and>
   (\<forall>NDEBUG. case runSliceMarch NDEBUG IntelLearnFN 1 1 858993460 1 graph_1xmany of
      Inl e \<Rightarrow> False
    | Inr (s, acquired) \<Rightarrow> acquired = [[0, 1, 2, 3]]) \<and>
   MAX_MOVIE_UPDATES * (858993460 div 1) = 4294967300"
  by (simp add: march_eval graph_1x5_def graph_1xmany_def)


end
